theory Spec2Isabelle
  imports Complex_Main
begin

section \<open>The clustered QAP instance generator\<close>

text \<open>
  A shallow embedding of \<^verbatim>\<open>scripts/generate_meta_instance.py\<close>: the function
  \<^verbatim>\<open>generate(n, clusters, seed)\<close> and the serialisation done by the script's
  main block.  Python integers are \<open>int\<close>, loop indices drawn from \<^verbatim>\<open>range(n)\<close>
  are \<open>nat\<close>, a matrix is a list of rows, and every Python exception the code could
  raise is a value of \<open>py_error\<close>.
\<close>

subsection \<open>Exceptions and the primitive operations that raise them\<close>

datatype py_error = ZeroDivisionError | IndexError | OSError

text \<open>\<^verbatim>\<open>a // b\<close>: floor division, raising on a zero divisor.\<close>

definition floordiv :: "int \<Rightarrow> int \<Rightarrow> py_error + int" where
  "floordiv a b = (if b = 0 then Inl ZeroDivisionError else Inr (a div b))"

text \<open>\<^verbatim>\<open>xs[i]\<close> and \<^verbatim>\<open>xs[i] = v\<close> for an index that is never negative.\<close>

definition getitem :: "'a list \<Rightarrow> nat \<Rightarrow> py_error + 'a" where
  "getitem xs i = (if i < length xs then Inr (xs ! i) else Inl IndexError)"

definition setitem :: "'a list \<Rightarrow> nat \<Rightarrow> 'a \<Rightarrow> py_error + 'a list" where
  "setitem xs i v = (if i < length xs then Inr (xs[i := v]) else Inl IndexError)"

text \<open>\<^verbatim>\<open>range(n)\<close>: empty when \<open>n \<le> 0\<close>.\<close>

definition range_py :: "int \<Rightarrow> nat list" where
  "range_py n = [0..<nat n]"

subsection \<open>The pseudo-random number generator\<close>

text \<open>
  The script uses the hidden global generator of Python's \<^verbatim>\<open>random\<close> module, which
  is library code and not part of the repository.  It is a parameter of the model:
  a state type \<open>'s\<close> with the three operations the script calls.
  \<^item> \<open>seed_state a\<close> is the state \<^verbatim>\<open>random.seed(a)\<close> installs (whatever the state was);
  \<^item> \<open>randint a b s\<close> is the value of \<^verbatim>\<open>random.randint(a, b)\<close> in state \<open>s\<close> and the
    state it leaves;
  \<^item> \<open>random s\<close> is the same for \<^verbatim>\<open>random.random()\<close>.  The float it returns is only
    ever compared with \<^verbatim>\<open>0.05\<close>, so it is modelled by the real number it denotes.
\<close>

record 's rng =
  seed_state :: "int \<Rightarrow> 's"
  randint :: "int \<Rightarrow> int \<Rightarrow> 's \<Rightarrow> int \<times> 's"
  random :: "'s \<Rightarrow> real \<times> 's"

text \<open>The documented contract of \<^verbatim>\<open>randint(a, b)\<close>: a value \<open>N\<close> with \<open>a \<le> N \<le> b\<close>.\<close>

definition randint_ok :: "'s rng \<Rightarrow> bool" where
  "randint_ok g =
     (\<forall>a b s. a \<le> b \<longrightarrow> a \<le> fst (randint g a b s) \<and> fst (randint g a b s) \<le> b)"

subsection \<open>What a call can touch\<close>

text \<open>
  The state outside the return value: the state of the global generator, the files on
  disk (path to contents), which paths can be opened for writing, and what has been
  printed.
\<close>

record 's world =
  random_state :: 's
  fs :: "string \<rightharpoonup> string"
  can_open :: "string \<Rightarrow> bool"
  stdout :: "string list"

subsection \<open>generate\<close>

text \<open>\<^verbatim>\<open>cluster_of = [i * clusters // n for i in range(n)]\<close>\<close>

fun cluster_of_loop :: "int \<Rightarrow> int \<Rightarrow> nat list \<Rightarrow> py_error + int list" where
  "cluster_of_loop n clusters [] = Inr []"
| "cluster_of_loop n clusters (i # rest) =
     (case floordiv (int i * clusters) n of
        Inl e \<Rightarrow> Inl e
      | Inr c \<Rightarrow>
          (case cluster_of_loop n clusters rest of
             Inl e \<Rightarrow> Inl e
           | Inr cs \<Rightarrow> Inr (c # cs)))"

definition cluster_of :: "int \<Rightarrow> int \<Rightarrow> py_error + int list" where
  "cluster_of n clusters = cluster_of_loop n clusters (range_py n)"

text \<open>
  \<^verbatim>\<open>[[0]*n for _ in range(n)]\<close>: \<open>n\<close> rows, each a fresh list of \<open>n\<close> zeros (the
  rows are distinct objects, so writing one row never changes another).
\<close>

definition zeros :: "int \<Rightarrow> int list list" where
  "zeros n = map (\<lambda>_. replicate (nat n) 0) (range_py n)"

text \<open>\<^verbatim>\<open>M[i][j] = v\<close>: read row \<open>i\<close>, store \<open>v\<close> at its index \<open>j\<close>.\<close>

definition setcell :: "int list list \<Rightarrow> nat \<Rightarrow> nat \<Rightarrow> int \<Rightarrow> py_error + int list list" where
  "setcell M i j v =
     (case getitem M i of
        Inl e \<Rightarrow> Inl e
      | Inr row \<Rightarrow>
          (case setitem row j v of
             Inl e \<Rightarrow> Inl e
           | Inr row' \<Rightarrow> Inr (M[i := row'])))"

text \<open>
  The body of the distance loops: the value stored in \<^verbatim>\<open>D[i][j]\<close>.  The two reads
  \<^verbatim>\<open>cluster_of[i]\<close> and \<^verbatim>\<open>cluster_of[j]\<close> are bound once; the code repeats them for
  \<^verbatim>\<open>cd\<close> with the same result.  The bounds passed to \<open>randint\<close> are constants with
  \<open>a \<le> b\<close>, so its \<^verbatim>\<open>ValueError\<close> for an empty range cannot occur.
\<close>

definition distance_cell :: "'s rng \<Rightarrow> int list \<Rightarrow> nat \<Rightarrow> nat \<Rightarrow> 's \<Rightarrow> py_error + (int \<times> 's)" where
  "distance_cell g cl i j s =
     (if i = j then Inr (0, s)
      else
        (case getitem cl i of
           Inl e \<Rightarrow> Inl e
         | Inr ci \<Rightarrow>
             (case getitem cl j of
                Inl e \<Rightarrow> Inl e
              | Inr cj \<Rightarrow>
                  if ci = cj then
                    (case randint g 0 9 s of (r, s') \<Rightarrow> Inr (1 + r, s'))
                  else
                    (let cd = \<bar>ci - cj\<bar> in
                     case randint g 0 19 s of (r, s') \<Rightarrow> Inr (30 + cd * 10 + r, s')))))"

text \<open>
  The body of the flow loops: the value stored in \<^verbatim>\<open>F[i][j]\<close>.  The probability
  value is drawn before the branch is chosen.  \<^verbatim>\<open>random.random()\<close> returns multiples of
  \<open>2\<^sup>-\<^sup>5\<^sup>3\<close>, and on those the comparison with the double written \<^verbatim>\<open>0.05\<close> and the
  comparison with the real number \<open>5/100\<close> agree, so the test is written with the latter.
\<close>

definition flow_cell :: "'s rng \<Rightarrow> int list \<Rightarrow> nat \<Rightarrow> nat \<Rightarrow> 's \<Rightarrow> py_error + (int \<times> 's)" where
  "flow_cell g cl i j s =
     (if i = j then Inr (0, s)
      else
        (case getitem cl i of
           Inl e \<Rightarrow> Inl e
         | Inr ci \<Rightarrow>
             (case getitem cl j of
                Inl e \<Rightarrow> Inl e
              | Inr cj \<Rightarrow>
                  if ci = cj then
                    (case randint g 80 200 s of (r, s') \<Rightarrow> Inr (r, s'))
                  else
                    (case random g s of
                       (p, s1) \<Rightarrow>
                         if p < 5 / 100 then
                           (case randint g 120 220 s1 of (r, s') \<Rightarrow> Inr (r, s'))
                         else
                           (case randint g 5 80 s1 of (r, s') \<Rightarrow> Inr (r, s'))))))"

text \<open>
  \<^verbatim>\<open>for j in range(n): M[i][j] = ...\<close> and \<^verbatim>\<open>for i in range(n): ...\<close> around it.
  Both matrices are filled by the same pair of loops, with their own cell body.
\<close>

fun inner_loop ::
  "(nat \<Rightarrow> nat \<Rightarrow> 's \<Rightarrow> py_error + (int \<times> 's)) \<Rightarrow> nat \<Rightarrow> nat list \<Rightarrow>
   int list list \<Rightarrow> 's \<Rightarrow> py_error + (int list list \<times> 's)" where
  "inner_loop cell i [] M s = Inr (M, s)"
| "inner_loop cell i (j # js) M s =
     (case cell i j s of
        Inl e \<Rightarrow> Inl e
      | Inr (v, s') \<Rightarrow>
          (case setcell M i j v of
             Inl e \<Rightarrow> Inl e
           | Inr M' \<Rightarrow> inner_loop cell i js M' s'))"

fun outer_loop ::
  "(nat \<Rightarrow> nat \<Rightarrow> 's \<Rightarrow> py_error + (int \<times> 's)) \<Rightarrow> nat list \<Rightarrow> nat list \<Rightarrow>
   int list list \<Rightarrow> 's \<Rightarrow> py_error + (int list list \<times> 's)" where
  "outer_loop cell js [] M s = Inr (M, s)"
| "outer_loop cell js (i # rest) M s =
     (case inner_loop cell i js M s of
        Inl e \<Rightarrow> Inl e
      | Inr (M', s') \<Rightarrow> outer_loop cell js rest M' s')"

text \<open>
  \<^verbatim>\<open>generate(n, clusters, seed)\<close>.  \<^verbatim>\<open>random.seed(seed)\<close> replaces the state of the
  global generator; the distance matrix is filled completely before the flow matrix,
  from the one stream; the generator is left in the state after the last draw.
\<close>

definition generate ::
  "'s rng \<Rightarrow> int \<Rightarrow> int \<Rightarrow> int \<Rightarrow> 's world \<Rightarrow>
   py_error + ((int list list \<times> int list list) \<times> 's world)" where
  "generate g n clusters seed w =
     (let s0 = seed_state g seed in
      case cluster_of n clusters of
        Inl e \<Rightarrow> Inl e
      | Inr cl \<Rightarrow>
          (case outer_loop (distance_cell g cl) (range_py n) (range_py n) (zeros n) s0 of
             Inl e \<Rightarrow> Inl e
           | Inr (D, s1) \<Rightarrow>
               (case outer_loop (flow_cell g cl) (range_py n) (range_py n) (zeros n) s1 of
                  Inl e \<Rightarrow> Inl e
                | Inr (F, s2) \<Rightarrow> Inr ((D, F), w\<lparr>random_state := s2\<rparr>))))"

subsection \<open>The main block: serialisation and confirmation\<close>

text \<open>\<^verbatim>\<open>str(x)\<close> for an integer: decimal digits, with a minus sign when negative.\<close>

definition digit_char :: "nat \<Rightarrow> char" where
  "digit_char d = char_of (48 + d)"

fun str_nat :: "nat \<Rightarrow> string" where
  "str_nat k = (if k < 10 then [digit_char k] else str_nat (k div 10) @ [digit_char (k mod 10)])"

declare str_nat.simps [simp del]

definition str_int :: "int \<Rightarrow> string" where
  "str_int x = (if x < 0 then CHR ''-'' # str_nat (nat (- x)) else str_nat (nat x))"







subsection \<open>Reading an instance file\<close>









subsection \<open>Concrete generators\<close>

text \<open>
  A generator that replays a recorded stream of raw values: seeding with \<open>a\<close> installs
  the stream \<open>tape a\<close>, \<open>randint a b\<close> maps the next raw value into \<open>[a, b]\<close>, and
  \<open>random\<close> maps it to a multiple of \<open>1/100\<close> in \<open>[0, 1)\<close>.  An exhausted stream
  yields the raw value \<open>0\<close>.
\<close>

definition next_raw :: "nat list \<Rightarrow> nat \<times> nat list" where
  "next_raw t = (case t of [] \<Rightarrow> (0, []) | x # rest \<Rightarrow> (x, rest))"

definition replay :: "(int \<Rightarrow> nat list) \<Rightarrow> nat list rng" where
  "replay tape =
     \<lparr> seed_state = tape,
       randint = (\<lambda>a b t. case next_raw t of (x, rest) \<Rightarrow> (a + int (x mod nat (b - a + 1)), rest)),
       random = (\<lambda>t. case next_raw t of (x, rest) \<Rightarrow> (real (x mod 100) / 100, rest)) \<rparr>"

text \<open>
  Any generator with a counter of the calls made to it since it was seeded: the state
  is paired with the number of \<open>randint\<close> and \<open>random\<close> calls.
\<close>

definition counting :: "'s rng \<Rightarrow> ('s \<times> nat) rng" where
  "counting g =
     \<lparr> seed_state = (\<lambda>a. (seed_state g a, 0)),
       randint = (\<lambda>a b (s, k). case randint g a b s of (r, s') \<Rightarrow> (r, (s', Suc k))),
       random = (\<lambda>(s, k). case random g s of (p, s') \<Rightarrow> (p, (s', Suc k))) \<rparr>"

text \<open>A world with no files and nothing printed, in which every path can be opened.\<close>

definition world0 :: "'s \<Rightarrow> 's world" where
  "world0 s = \<lparr> random_state = s, fs = Map.empty, can_open = (\<lambda>_. True), stdout = [] \<rparr>"

subsection \<open>Specification vocabulary\<close>

text \<open>A matrix of \<open>n\<close> rows with \<open>n\<close> entries each.\<close>

definition square :: "nat \<Rightarrow> int list list \<Rightarrow> bool" where
  "square n M = (length M = n \<and> (\<forall>row \<in> set M. length row = n))"

text \<open>The cluster assignment as a closed expression.\<close>

definition clusters_list :: "int \<Rightarrow> int \<Rightarrow> int list" where
  "clusters_list n c = map (\<lambda>i. int i * c div n) [0..<nat n]"

text \<open>
  The ranges of the entries, by cluster membership, for a cluster assignment \<open>cl\<close>:
  what the comments of the loops promise for \<^verbatim>\<open>D[i][j]\<close> and \<^verbatim>\<open>F[i][j]\<close>.
\<close>

definition distance_spec :: "int list \<Rightarrow> nat \<Rightarrow> nat \<Rightarrow> int \<Rightarrow> bool" where
  "distance_spec cl i j v =
     (if i = j then v = 0
      else if cl ! i = cl ! j then 1 \<le> v \<and> v \<le> 10
      else 30 + \<bar>cl ! i - cl ! j\<bar> * 10 \<le> v \<and> v \<le> 30 + \<bar>cl ! i - cl ! j\<bar> * 10 + 19)"

definition flow_spec :: "int list \<Rightarrow> nat \<Rightarrow> nat \<Rightarrow> int \<Rightarrow> bool" where
  "flow_spec cl i j v =
     (if i = j then v = 0
      else if cl ! i = cl ! j then 80 \<le> v \<and> v \<le> 200
      else (5 \<le> v \<and> v \<le> 80) \<or> (120 \<le> v \<and> v \<le> 220))"



text \<open>A recorded stream used for the concrete runs below (the same for every seed).\<close>

definition tape0 :: "int \<Rightarrow> nat list" where
  "tape0 a =
     [6, 13, 2, 7, 19, 4, 11, 50, 3, 77, 1, 99, 4, 30, 8, 12, 60, 21, 33, 45, 2, 9, 17, 64,
      5, 40, 71, 28]"

subsection \<open>The calls a run makes to the generator\<close>

text \<open>
  A request to the generator, as the script makes it: \<^verbatim>\<open>random.randint(a, b)\<close> or
  \<^verbatim>\<open>random.random()\<close>.  \<open>draw_step\<close> is the state a request leaves, and \<open>advance\<close>
  the state a sequence of requests leaves, made one after the other.
\<close>

datatype draw = Randint int int | Random

definition draw_step :: "'s rng \<Rightarrow> draw \<Rightarrow> 's \<Rightarrow> 's" where
  "draw_step g d s = (case d of Randint a b \<Rightarrow> snd (randint g a b s) | Random \<Rightarrow> snd (random g s))"

definition advance :: "'s rng \<Rightarrow> 's \<Rightarrow> draw list \<Rightarrow> 's" where
  "advance g s ds = foldl (\<lambda>t d. draw_step g d t) s ds"

text \<open>
  Any generator with a record of the requests made to it since it was seeded: the state
  is paired with the list of requests, in the order they were made.  Values and states
  are those of the generator itself.
\<close>

definition logging :: "'s rng \<Rightarrow> ('s \<times> draw list) rng" where
  "logging g =
     \<lparr> seed_state = (\<lambda>a. (seed_state g a, [])),
       randint = (\<lambda>a b (s, l). case randint g a b s of (r, s') \<Rightarrow> (r, (s', l @ [Randint a b]))),
       random = (\<lambda>(s, l). case random g s of (p, s') \<Rightarrow> (p, (s', l @ [Random]))) \<rparr>"

text \<open>A recorded stream that depends on the seed: every raw value is shifted by it.\<close>

definition tape1 :: "int \<Rightarrow> nat list" where
  "tape1 a =
     map (\<lambda>x. x + nat \<bar>a\<bar>)
       [6, 13, 2, 7, 19, 4, 11, 50, 3, 77, 95, 99, 4, 30, 8, 12, 60, 21, 33, 45]"

section \<open>Properties\<close>

subsection \<open>The cluster assignment and the matrix loops\<close>

lemma cluster_of_loop_eq:
  "n \<noteq> 0 \<Longrightarrow> cluster_of_loop n c xs = Inr (map (\<lambda>i. int i * c div n) xs)"
  by (induction xs) (simp_all add: floordiv_def)

lemma cluster_of_eq:
  "cluster_of n c = Inr (map (\<lambda>i. int i * c div n) (range_py n))"
proof (cases "n = 0")
  case True
  then show ?thesis by (simp add: cluster_of_def range_py_def)
next
  case False
  then show ?thesis by (simp add: cluster_of_def cluster_of_loop_eq)
qed

lemma square_zeros: "square (nat n) (zeros n)"
  by (simp add: square_def zeros_def range_py_def)

lemma setcell_square:
  assumes "square n M" "i < n" "j < n"
  shows "setcell M i j v = Inr (M[i := (M ! i)[j := v]])"
    and "square n (M[i := (M ! i)[j := v]])"
  using assms
  by (auto simp: setcell_def getitem_def setitem_def square_def dest: set_update_subset_insert[THEN subsetD])

lemma inner_loop_inv:
  assumes cell: "\<And>j s. j < n \<Longrightarrow> \<exists>v s'. cell i j s = Inr (v, s') \<and> P i j v"
    and "i < n"
  shows "square n M \<Longrightarrow> \<forall>j\<in>set js. j < n \<Longrightarrow>
    \<exists>M' s'. inner_loop cell i js M s = Inr (M', s') \<and> square n M' \<and>
      (\<forall>j\<in>set js. P i j (M' ! i ! j)) \<and>
      (\<forall>a b. a < n \<longrightarrow> b < n \<longrightarrow> (a \<noteq> i \<or> b \<notin> set js) \<longrightarrow> M' ! a ! b = M ! a ! b)"
proof (induction js arbitrary: M s)
  case Nil
  then show ?case by simp
next
  case (Cons j js)
  from Cons.prems have jn: "j < n" and js: "\<forall>j\<in>set js. j < n" by simp_all
  from cell[OF jn, of s] obtain v s1 where c: "cell i j s = Inr (v, s1)" and Pv: "P i j v"
    by blast
  let ?M1 = "M[i := (M ! i)[j := v]]"
  have sc: "setcell M i j v = Inr ?M1" and sq1: "square n ?M1"
    using setcell_square[OF Cons.prems(1) \<open>i < n\<close> jn] by simp_all
  from Cons.IH[OF sq1 js, of s1] obtain M' s' where
    r: "inner_loop cell i js ?M1 s1 = Inr (M', s')" and sq': "square n M'"
    and P': "\<forall>j\<in>set js. P i j (M' ! i ! j)"
    and same: "\<forall>a b. a < n \<longrightarrow> b < n \<longrightarrow> (a \<noteq> i \<or> b \<notin> set js) \<longrightarrow> M' ! a ! b = ?M1 ! a ! b"
    by blast
  have len: "length M = n" "length (M ! i) = n"
    using Cons.prems(1) \<open>i < n\<close> by (auto simp: square_def)
  have run: "inner_loop cell i (j # js) M s = Inr (M', s')"
    by (simp add: c sc r)
  have Pj: "P i j (M' ! i ! j)"
  proof (cases "j \<in> set js")
    case True
    then show ?thesis using P' by blast
  next
    case False
    then have "M' ! i ! j = ?M1 ! i ! j" using same \<open>i < n\<close> jn by blast
    also have "\<dots> = v" using len \<open>i < n\<close> jn by simp
    finally show ?thesis using Pv by simp
  qed
  have keep: "\<forall>a b. a < n \<longrightarrow> b < n \<longrightarrow> (a \<noteq> i \<or> b \<notin> set (j # js)) \<longrightarrow> M' ! a ! b = M ! a ! b"
  proof (intro allI impI)
    fix a b assume a: "a < n" and b: "b < n" and ne: "a \<noteq> i \<or> b \<notin> set (j # js)"
    then have "M' ! a ! b = ?M1 ! a ! b" using same by auto
    also have "\<dots> = M ! a ! b"
      using ne len a b by (cases "a = i") auto
    finally show "M' ! a ! b = M ! a ! b" .
  qed
  show ?case using run sq' Pj P' keep by auto
qed

lemma outer_loop_inv:
  assumes cell: "\<And>i j s. i < n \<Longrightarrow> j < n \<Longrightarrow> \<exists>v s'. cell i j s = Inr (v, s') \<and> P i j v"
  shows "square n M \<Longrightarrow> \<forall>i\<in>set rows. i < n \<Longrightarrow>
    \<exists>M' s'. outer_loop cell [0..<n] rows M s = Inr (M', s') \<and> square n M' \<and>
      (\<forall>i\<in>set rows. \<forall>j<n. P i j (M' ! i ! j)) \<and>
      (\<forall>a b. a < n \<longrightarrow> b < n \<longrightarrow> a \<notin> set rows \<longrightarrow> M' ! a ! b = M ! a ! b)"
proof (induction rows arbitrary: M s)
  case Nil
  then show ?case by simp
next
  case (Cons i rows)
  from Cons.prems have i: "i < n" and rows: "\<forall>i\<in>set rows. i < n" by simp_all
  have js: "\<forall>j\<in>set [0..<n]. j < n" by simp
  have "\<exists>M' s'. inner_loop cell i [0..<n] M s = Inr (M', s') \<and> square n M' \<and>
      (\<forall>j\<in>set [0..<n]. P i j (M' ! i ! j)) \<and>
      (\<forall>a b. a < n \<longrightarrow> b < n \<longrightarrow> (a \<noteq> i \<or> b \<notin> set [0..<n]) \<longrightarrow> M' ! a ! b = M ! a ! b)"
    by (rule inner_loop_inv[where cell = cell and P = P and n = n]) (use cell i Cons.prems(1) in auto)
  then obtain M1 s1 where
    r1: "inner_loop cell i [0..<n] M s = Inr (M1, s1)" and sq1: "square n M1"
    and P1: "\<forall>j<n. P i j (M1 ! i ! j)"
    and same1: "\<forall>a b. a < n \<longrightarrow> b < n \<longrightarrow> a \<noteq> i \<longrightarrow> M1 ! a ! b = M ! a ! b"
    by auto
  from Cons.IH[OF sq1 rows, of s1] obtain M' s' where
    r: "outer_loop cell [0..<n] rows M1 s1 = Inr (M', s')" and sq': "square n M'"
    and P': "\<forall>i\<in>set rows. \<forall>j<n. P i j (M' ! i ! j)"
    and same: "\<forall>a b. a < n \<longrightarrow> b < n \<longrightarrow> a \<notin> set rows \<longrightarrow> M' ! a ! b = M1 ! a ! b"
    by blast
  have run: "outer_loop cell [0..<n] (i # rows) M s = Inr (M', s')"
    by (simp add: r1 r)
  have Pi: "\<forall>j<n. P i j (M' ! i ! j)"
  proof (cases "i \<in> set rows")
    case True
    then show ?thesis using P' by blast
  next
    case False
    then show ?thesis using same P1 i by simp
  qed
  have keep: "\<forall>a b. a < n \<longrightarrow> b < n \<longrightarrow> a \<notin> set (i # rows) \<longrightarrow> M' ! a ! b = M ! a ! b"
    using same same1 by simp
  show ?case using run sq' Pi P' keep by auto
qed

lemma fill_matrix:
  assumes cell: "\<And>i j s. i < nat n \<Longrightarrow> j < nat n \<Longrightarrow> \<exists>v s'. cell i j s = Inr (v, s') \<and> P i j v"
  shows "\<exists>M' s'. outer_loop cell (range_py n) (range_py n) (zeros n) s = Inr (M', s') \<and>
     square (nat n) M' \<and> (\<forall>i<nat n. \<forall>j<nat n. P i j (M' ! i ! j))"
proof -
  have rows: "\<forall>i\<in>set [0..<nat n]. i < nat n" by simp
  have "\<exists>M' s'. outer_loop cell [0..<nat n] [0..<nat n] (zeros n) s = Inr (M', s') \<and>
      square (nat n) M' \<and> (\<forall>i\<in>set [0..<nat n]. \<forall>j<nat n. P i j (M' ! i ! j)) \<and>
      (\<forall>a b. a < nat n \<longrightarrow> b < nat n \<longrightarrow> a \<notin> set [0..<nat n] \<longrightarrow> M' ! a ! b = zeros n ! a ! b)"
    by (rule outer_loop_inv[where cell = cell and P = P and n = "nat n"]) (use cell square_zeros in auto)
  then show ?thesis by (auto simp: range_py_def)
qed

lemma randint_okD:
  "randint_ok g \<Longrightarrow> a \<le> b \<Longrightarrow> randint g a b s = (r, s') \<Longrightarrow> a \<le> r \<and> r \<le> b"
  unfolding randint_ok_def by (metis fst_conv)

lemma distance_cell_total:
  "i < length cl \<Longrightarrow> j < length cl \<Longrightarrow> \<exists>v s'. distance_cell g cl i j s = Inr (v, s')"
  by (simp add: distance_cell_def getitem_def Let_def split: prod.split)

lemma flow_cell_total:
  "i < length cl \<Longrightarrow> j < length cl \<Longrightarrow> \<exists>v s'. flow_cell g cl i j s = Inr (v, s')"
  by (simp add: flow_cell_def getitem_def split: prod.split)

lemma distance_cell_spec:
  assumes "randint_ok g" "i < length cl" "j < length cl"
    and "distance_cell g cl i j s = Inr (v, s')"
  shows "distance_spec cl i j v"
proof -
  obtain r1 t1 where r1: "randint g 0 9 s = (r1, t1)" by (cases "randint g 0 9 s")
  obtain r2 t2 where r2: "randint g 0 19 s = (r2, t2)" by (cases "randint g 0 19 s")
  have b1: "0 \<le> r1 \<and> r1 \<le> 9" using randint_okD[OF assms(1) _ r1] by simp
  have b2: "0 \<le> r2 \<and> r2 \<le> 19" using randint_okD[OF assms(1) _ r2] by simp
  show ?thesis
    using assms(2-4) b1 b2
    by (auto simp: distance_cell_def distance_spec_def getitem_def Let_def r1 r2 split: if_splits)
qed

lemma flow_cell_spec:
  assumes "randint_ok g" "i < length cl" "j < length cl"
    and "flow_cell g cl i j s = Inr (v, s')"
  shows "flow_spec cl i j v"
proof -
  obtain p s1 where p: "random g s = (p, s1)" by (cases "random g s")
  obtain r1 t1 where r1: "randint g 80 200 s = (r1, t1)" by (cases "randint g 80 200 s")
  obtain r2 t2 where r2: "randint g 120 220 s1 = (r2, t2)" by (cases "randint g 120 220 s1")
  obtain r3 t3 where r3: "randint g 5 80 s1 = (r3, t3)" by (cases "randint g 5 80 s1")
  have b1: "80 \<le> r1 \<and> r1 \<le> 200" using randint_okD[OF assms(1) _ r1] by simp
  have b2: "120 \<le> r2 \<and> r2 \<le> 220" using randint_okD[OF assms(1) _ r2] by simp
  have b3: "5 \<le> r3 \<and> r3 \<le> 80" using randint_okD[OF assms(1) _ r3] by simp
  show ?thesis
    using assms(2-4) b1 b2 b3
    by (auto simp: flow_cell_def flow_spec_def getitem_def p r1 r2 r3 split: if_splits)
qed

lemma generate_run:
  "\<exists>D F s.
     (\<forall>w. generate g n c seed w = Inr ((D, F), w\<lparr>random_state := s\<rparr>)) \<and>
     square (nat n) D \<and> square (nat n) F \<and>
     (randint_ok g \<longrightarrow>
        (\<forall>i<nat n. \<forall>j<nat n.
           distance_spec (clusters_list n c) i j (D ! i ! j) \<and>
           flow_spec (clusters_list n c) i j (F ! i ! j)))"
proof -
  let ?cl = "clusters_list n c"
  have len: "length ?cl = nat n" by (simp add: clusters_list_def)
  have cl: "cluster_of n c = Inr ?cl" by (simp add: cluster_of_eq clusters_list_def range_py_def)
  let ?PD = "\<lambda>i j v. randint_ok g \<longrightarrow> distance_spec ?cl i j v"
  let ?PF = "\<lambda>i j v. randint_ok g \<longrightarrow> flow_spec ?cl i j v"
  have dc: "\<exists>v s'. distance_cell g ?cl i j s = Inr (v, s') \<and> ?PD i j v"
    if "i < nat n" "j < nat n" for i j s
    using distance_cell_total[of i ?cl j g s] distance_cell_spec[of g i ?cl j s] that len
    by auto
  have fc: "\<exists>v s'. flow_cell g ?cl i j s = Inr (v, s') \<and> ?PF i j v"
    if "i < nat n" "j < nat n" for i j s
    using flow_cell_total[of i ?cl j g s] flow_cell_spec[of g i ?cl j s] that len
    by auto
  have "\<exists>M' s'. outer_loop (distance_cell g ?cl) (range_py n) (range_py n) (zeros n) (seed_state g seed)
           = Inr (M', s') \<and> square (nat n) M' \<and> (\<forall>i<nat n. \<forall>j<nat n. ?PD i j (M' ! i ! j))"
    by (rule fill_matrix[where cell = "distance_cell g ?cl" and P = ?PD]) (rule dc)
  then obtain D s1 where
    rD: "outer_loop (distance_cell g ?cl) (range_py n) (range_py n) (zeros n) (seed_state g seed) = Inr (D, s1)"
    and sqD: "square (nat n) D" and PD: "\<forall>i<nat n. \<forall>j<nat n. ?PD i j (D ! i ! j)"
    by blast
  have "\<exists>M' s'. outer_loop (flow_cell g ?cl) (range_py n) (range_py n) (zeros n) s1
           = Inr (M', s') \<and> square (nat n) M' \<and> (\<forall>i<nat n. \<forall>j<nat n. ?PF i j (M' ! i ! j))"
    by (rule fill_matrix[where cell = "flow_cell g ?cl" and P = ?PF]) (rule fc)
  then obtain F s2 where
    rF: "outer_loop (flow_cell g ?cl) (range_py n) (range_py n) (zeros n) s1 = Inr (F, s2)"
    and sqF: "square (nat n) F" and PF: "\<forall>i<nat n. \<forall>j<nat n. ?PF i j (F ! i ! j)"
    by blast
  have run: "\<forall>w. generate g n c seed w = Inr ((D, F), w\<lparr>random_state := s2\<rparr>)"
    by (simp add: generate_def cl rD rF)
  show ?thesis using run sqD sqF PD PF by blast
qed

subsection \<open>Decimal text, lines and the reader\<close>



lemma str_nat_nonempty: "str_nat k \<noteq> []"
  by (simp add: str_nat.simps[of k])







lemma str_int_nonempty: "str_int x \<noteq> []"
  by (simp add: str_int_def str_nat_nonempty)















subsection \<open>Facts about the cluster assignment\<close>

lemma clusters_list_nth: "i < nat n \<Longrightarrow> clusters_list n c ! i = int i * c div n"
  by (simp add: clusters_list_def)

lemma length_clusters_list: "length (clusters_list n c) = nat n"
  by (simp add: clusters_list_def)

lemma cluster_of_clusters_list: "cluster_of n c = Inr (clusters_list n c)"
  by (simp add: cluster_of_eq clusters_list_def range_py_def)

lemma cluster_id_bounds:
  assumes "1 \<le> n" "1 \<le> c" "i < nat n"
  shows "0 \<le> int i * c div n" "int i * c div n \<le> c - 1"
proof -
  have n: "0 < n" using assms by simp
  have "0 \<le> int i * c" using assms by simp
  then show "0 \<le> int i * c div n" using n by (simp add: pos_imp_zdiv_nonneg_iff)
  have "int i \<le> n - 1" using assms by linarith
  then have "int i * c \<le> (n - 1) * c" using assms by (simp add: mult_right_mono)
  also have "\<dots> < c * n" using assms by (simp add: algebra_simps)
  finally have lt: "int i * c < c * n" .
  have "n * (int i * c div n) \<le> int i * c"
    using n by (metis mult_div_mod_eq pos_mod_sign add.commute add_increasing2 order_refl le_add_same_cancel1)
  with lt have "n * (int i * c div n) < n * c" by (simp add: mult.commute)
  then have "int i * c div n < c" using n by (simp add: mult_less_cancel_left_pos)
  then show "int i * c div n \<le> c - 1" by simp
qed

lemma cluster_mono:
  assumes "1 \<le> n" "0 \<le> c" "i \<le> j"
  shows "int i * c div n \<le> int j * c div n"
proof -
  have "int i * c \<le> int j * c" using assms by (simp add: mult_right_mono)
  then show ?thesis using assms by (simp add: zdiv_mono1)
qed

subsection \<open>Concrete runs\<close>

lemma range_py_numeral: "range_py 3 = [0, 1, 2]" "range_py 4 = [0, 1, 2, 3]" "range_py 1 = [0]"
  by (simp_all add: range_py_def upt_rec)

lemma zeros_numeral:
  "zeros 3 = [[0, 0, 0], [0, 0, 0], [0, 0, 0]]"
  "zeros 4 = [[0, 0, 0, 0], [0, 0, 0, 0], [0, 0, 0, 0], [0, 0, 0, 0]]"
  "zeros 1 = [[0]]"
  by (simp_all add: zeros_def range_py_numeral eval_nat_numeral)

lemma cluster_of_numeral:
  "cluster_of 3 2 = Inr [0, 0, 1]" "cluster_of 4 2 = Inr [0, 0, 1, 1]" "cluster_of 1 1 = Inr [0]"
  by (simp_all add: cluster_of_def range_py_numeral floordiv_def)

lemmas run_simps = generate_def cluster_of_numeral range_py_numeral zeros_numeral
  distance_cell_def flow_cell_def setcell_def getitem_def setitem_def replay_def
  next_raw_def tape0_def

lemma run3:
  "generate (replay tape0) 3 2 0 w =
     Inr (([[0, 7, 53], [3, 0, 47], [59, 44, 0]], [[0, 91, 8], [157, 0, 219], [150, 17, 0]]),
          w\<lparr>random_state := [60, 21, 33, 45, 2, 9, 17, 64, 5, 40, 71, 28]\<rparr>)"
  by (simp add: run_simps)

lemma run4:
  "generate (replay tape0) 4 2 0 w =
     Inr (([[0, 7, 53, 42], [8, 0, 59, 44], [51, 50, 0, 4], [57, 41, 10, 0]],
           [[0, 84, 13, 65], [101, 0, 50, 129], [69, 45, 0, 151], [5, 120, 80, 0]]),
          w\<lparr>random_state := []\<rparr>)"
  by (simp add: run_simps)

lemma run1:
  "generate (replay tape0) 1 1 0 w = Inr (([[0]], [[0]]), w\<lparr>random_state := tape0 0\<rparr>)"
  by (simp add: run_simps)

lemma replay_randint_range:
  assumes "a \<le> b"
  shows "a \<le> a + int (x mod nat (b - a + 1))" "a + int (x mod nat (b - a + 1)) \<le> b"
proof -
  have "0 < nat (b - a + 1)" using assms by simp
  then have "x mod nat (b - a + 1) < nat (b - a + 1)" by (rule mod_less_divisor)
  then have "int (x mod nat (b - a + 1)) < b - a + 1" using assms by linarith
  then show "a + int (x mod nat (b - a + 1)) \<le> b" by simp
  show "a \<le> a + int (x mod nat (b - a + 1))" by simp
qed

lemma randint_ok_replay: "randint_ok (replay tape)"
  unfolding randint_ok_def
  by (simp add: replay_def next_raw_def replay_randint_range split: list.split prod.split)


subsection \<open>Entries are never negative\<close>

lemma above_base: "0 \<le> a \<Longrightarrow> 30 + a * 10 \<le> v \<Longrightarrow> 0 \<le> (v::int)"
  by linarith

lemma distance_spec_nonneg:
  assumes "distance_spec cl i j v"
  shows "0 \<le> v"
proof (cases "i = j")
  case True
  with assms show ?thesis by (simp add: distance_spec_def)
next
  case False
  show ?thesis
  proof (cases "cl ! i = cl ! j")
    case True
    with assms False show ?thesis by (simp add: distance_spec_def)
  next
    case other: False
    with assms False have "30 + \<bar>cl ! i - cl ! j\<bar> * 10 \<le> v"
      by (simp add: distance_spec_def)
    then show ?thesis by (rule above_base[OF abs_ge_zero])
  qed
qed

lemma flow_spec_nonneg: "flow_spec cl i j v \<Longrightarrow> 0 \<le> v"
  by (cases "i = j"; cases "cl ! i = cl ! j") (auto simp: flow_spec_def)

subsection \<open>Separation of the distance ranges, and further concrete runs\<close>

lemma clusters_list_4_2: "clusters_list 4 2 = [0, 0, 1, 1]"
  by (simp add: clusters_list_def upt_rec)

lemma above_cross: "1 \<le> a \<Longrightarrow> 30 + a * 10 \<le> v \<Longrightarrow> 40 \<le> (v::int)"
  by linarith

lemma distance_spec_cross:
  assumes "distance_spec cl i j v" "i \<noteq> j" "cl ! i \<noteq> cl ! j"
  shows "40 \<le> v"
proof -
  from assms(3) have "1 \<le> \<bar>cl ! i - cl ! j\<bar>" by simp
  moreover from assms have "30 + \<bar>cl ! i - cl ! j\<bar> * 10 \<le> v" by (simp add: distance_spec_def)
  ultimately show ?thesis by (rule above_cross)
qed

lemma distance_spec_within:
  assumes "distance_spec cl i j v" "i \<noteq> j" "cl ! i = cl ! j"
  shows "1 \<le> v" "v \<le> 10"
  using assms by (simp_all add: distance_spec_def)

lemma flow_spec_within:
  assumes "flow_spec cl i j v" "i \<noteq> j" "cl ! i = cl ! j"
  shows "80 \<le> v" "v \<le> 200"
  using assms by (simp_all add: flow_spec_def)

lemma clusters_list_zero: "clusters_list n 0 = replicate (nat n) 0"
  by (simp add: clusters_list_def map_replicate_const)

lemma run2_0:
  "generate (replay tape0) 2 0 0 w =
     Inr (([[0, 7], [4, 0]], [[0, 82], [87, 0]]),
          w\<lparr>random_state := [19, 4, 11, 50, 3, 77, 1, 99, 4, 30, 8, 12, 60, 21, 33, 45, 2, 9,
                                17, 64, 5, 40, 71, 28]\<rparr>)"
proof -
  have r: "range_py 2 = [0, 1]" by (simp add: range_py_def upt_rec)
  have z: "zeros 2 = [[0, 0], [0, 0]]" by (simp add: zeros_def r eval_nat_numeral)
  have c: "cluster_of 2 0 = Inr [0, 0]" by (simp add: cluster_of_def r floordiv_def)
  show ?thesis
    by (simp add: generate_def c r z distance_cell_def flow_cell_def setcell_def getitem_def
        setitem_def replay_def next_raw_def tape0_def)
qed

subsection \<open>The state a call leaves the generator in\<close>

lemma advance_Nil: "advance g s [] = s"
  by (simp add: advance_def)

lemma advance_append: "advance g s (ds @ es) = advance g (advance g s ds) es"
  by (simp add: advance_def)

lemma advance_randint: "randint g a b s = (r, s') \<Longrightarrow> advance g s [Randint a b] = s'"
  by (simp add: advance_def draw_step_def)

lemma advance_random: "random g s = (p, s') \<Longrightarrow> advance g s [Random] = s'"
  by (simp add: advance_def draw_step_def)

lemma logging_randint:
  "randint g a b s = (r, s') \<Longrightarrow> randint (logging g) a b (s, l) = (r, (s', l @ [Randint a b]))"
  by (simp add: logging_def)

lemma logging_random:
  "random g s = (p, s') \<Longrightarrow> random (logging g) (s, l) = (p, (s', l @ [Random]))"
  by (simp add: logging_def)

lemma distance_cell_logging:
  assumes "distance_cell g cl i j s = Inr (v, s')"
  shows "\<exists>ds. distance_cell (logging g) cl i j (s, l) = Inr (v, (s', l @ ds)) \<and>
     s' = advance g s ds \<and> length ds = (if i = j then 0 else 1)"
proof (cases "i = j")
  case True
  with assms have "distance_cell (logging g) cl i j (s, l) = Inr (v, (s', l @ []))"
    by (simp add: distance_cell_def)
  moreover from True assms have "s' = advance g s []"
    by (simp add: distance_cell_def advance_Nil)
  ultimately show ?thesis using True by (intro exI[of _ "[]"]) simp
next
  case False
  from False assms obtain ci cj where ci: "getitem cl i = Inr ci" and cj: "getitem cl j = Inr cj"
    by (auto simp: distance_cell_def split: sum.splits)
  show ?thesis
  proof (cases "ci = cj")
    case True
    obtain r t where r: "randint g 0 9 s = (r, t)" by (cases "randint g 0 9 s")
    from assms False ci cj True r have vs: "v = 1 + r" "s' = t"
      by (simp_all add: distance_cell_def)
    have "distance_cell (logging g) cl i j (s, l) = Inr (v, (s', l @ [Randint 0 9]))"
      using False ci cj True logging_randint[OF r, of l] vs by (simp add: distance_cell_def)
    moreover have "s' = advance g s [Randint 0 9]" using advance_randint[OF r] vs by simp
    ultimately show ?thesis using False by (intro exI[of _ "[Randint 0 9]"]) simp
  next
    case other: False
    obtain r t where r: "randint g 0 19 s = (r, t)" by (cases "randint g 0 19 s")
    from assms False ci cj other r have vs: "v = 30 + \<bar>ci - cj\<bar> * 10 + r" "s' = t"
      by (simp_all add: distance_cell_def Let_def)
    have "distance_cell (logging g) cl i j (s, l) = Inr (v, (s', l @ [Randint 0 19]))"
      using False ci cj other logging_randint[OF r, of l] vs by (simp add: distance_cell_def Let_def)
    moreover have "s' = advance g s [Randint 0 19]" using advance_randint[OF r] vs by simp
    ultimately show ?thesis using False by (intro exI[of _ "[Randint 0 19]"]) simp
  qed
qed

lemma flow_cell_logging:
  assumes "flow_cell g cl i j s = Inr (v, s')"
  shows "\<exists>ds. flow_cell (logging g) cl i j (s, l) = Inr (v, (s', l @ ds)) \<and>
     s' = advance g s ds \<and> (if i = j then 0 else 1) \<le> length ds \<and>
     length ds \<le> (if i = j then 0 else 2)"
proof (cases "i = j")
  case True
  with assms have "flow_cell (logging g) cl i j (s, l) = Inr (v, (s', l @ []))"
    by (simp add: flow_cell_def)
  moreover from True assms have "s' = advance g s []"
    by (simp add: flow_cell_def advance_Nil)
  ultimately show ?thesis using True by (intro exI[of _ "[]"]) simp
next
  case False
  from False assms obtain ci cj where ci: "getitem cl i = Inr ci" and cj: "getitem cl j = Inr cj"
    by (auto simp: flow_cell_def split: sum.splits)
  show ?thesis
  proof (cases "ci = cj")
    case True
    obtain r t where r: "randint g 80 200 s = (r, t)" by (cases "randint g 80 200 s")
    from assms False ci cj True r have vs: "v = r" "s' = t"
      by (simp_all add: flow_cell_def)
    have "flow_cell (logging g) cl i j (s, l) = Inr (v, (s', l @ [Randint 80 200]))"
      using False ci cj True logging_randint[OF r, of l] vs by (simp add: flow_cell_def)
    moreover have "s' = advance g s [Randint 80 200]" using advance_randint[OF r] vs by simp
    ultimately show ?thesis using False by (intro exI[of _ "[Randint 80 200]"]) simp
  next
    case other: False
    obtain p s1 where p: "random g s = (p, s1)" by (cases "random g s")
    let ?a = "if p < 5 / 100 then 120 else (5::int)"
    let ?b = "if p < 5 / 100 then 220 else (80::int)"
    obtain r t where r: "randint g ?a ?b s1 = (r, t)" by (cases "randint g ?a ?b s1")
    from assms False ci cj other p r have vs: "v = r" "s' = t"
      by (simp_all add: flow_cell_def split: if_splits)
    have "flow_cell (logging g) cl i j (s, l) = Inr (v, (s', l @ [Random, Randint ?a ?b]))"
      using False ci cj other logging_random[OF p, of l] logging_randint[OF r, of "l @ [Random]"] vs
      by (simp add: flow_cell_def split: if_splits)
    moreover have "s' = advance g s [Random, Randint ?a ?b]"
      using advance_random[OF p] advance_randint[OF r] vs
      advance_append[of g s "[Random]" "[Randint ?a ?b]"] by simp
    ultimately show ?thesis using False by (intro exI[of _ "[Random, Randint ?a ?b]"]) simp
  qed
qed


lemma inner_loop_logging:
  assumes cell: "\<And>j s l v s'. cell i j s = Inr (v, s') \<Longrightarrow>
      \<exists>ds. cellL i j (s, l) = Inr (v, (s', l @ ds)) \<and> s' = advance g s ds \<and>
        lo i j \<le> length ds \<and> length ds \<le> hi i j"
  shows "inner_loop cell i js M s = Inr (M', s') \<Longrightarrow>
     \<exists>ds. inner_loop cellL i js M (s, l) = Inr (M', (s', l @ ds)) \<and> s' = advance g s ds \<and>
       sum_list (map (lo i) js) \<le> length ds \<and> length ds \<le> sum_list (map (hi i) js)"
proof (induction js arbitrary: M s l)
  case Nil
  then show ?case by (intro exI[of _ "[]"]) (simp add: advance_Nil)
next
  case (Cons j js)
  from Cons.prems obtain v s1 M1 where
    c: "cell i j s = Inr (v, s1)" and sc: "setcell M i j v = Inr M1"
    and rest: "inner_loop cell i js M1 s1 = Inr (M', s')"
    by (auto split: sum.splits)
  from cell[OF c, of l] obtain ds1 where
    cL: "cellL i j (s, l) = Inr (v, (s1, l @ ds1))" and a1: "s1 = advance g s ds1"
    and n1: "lo i j \<le> length ds1" "length ds1 \<le> hi i j"
    by blast
  from Cons.IH[OF rest, of "l @ ds1"] obtain ds2 where
    rL: "inner_loop cellL i js M1 (s1, l @ ds1) = Inr (M', (s', (l @ ds1) @ ds2))"
    and a2: "s' = advance g s1 ds2"
    and n2: "sum_list (map (lo i) js) \<le> length ds2" "length ds2 \<le> sum_list (map (hi i) js)"
    by blast
  have "inner_loop cellL i (j # js) M (s, l) = Inr (M', (s', l @ (ds1 @ ds2)))"
    by (simp add: cL sc rL)
  moreover have "s' = advance g s (ds1 @ ds2)" using a1 a2 by (simp add: advance_append)
  moreover have "sum_list (map (lo i) (j # js)) \<le> length (ds1 @ ds2)"
    "length (ds1 @ ds2) \<le> sum_list (map (hi i) (j # js))"
    using n1 n2 by simp_all
  ultimately show ?case by blast
qed

lemma outer_loop_logging:
  assumes cell: "\<And>i j s l v s'. cell i j s = Inr (v, s') \<Longrightarrow>
      \<exists>ds. cellL i j (s, l) = Inr (v, (s', l @ ds)) \<and> s' = advance g s ds \<and>
        lo i j \<le> length ds \<and> length ds \<le> hi i j"
  shows "outer_loop cell js rows M s = Inr (M', s') \<Longrightarrow>
     \<exists>ds. outer_loop cellL js rows M (s, l) = Inr (M', (s', l @ ds)) \<and> s' = advance g s ds \<and>
       sum_list (map (\<lambda>i. sum_list (map (lo i) js)) rows) \<le> length ds \<and>
       length ds \<le> sum_list (map (\<lambda>i. sum_list (map (hi i) js)) rows)"
proof (induction rows arbitrary: M s l)
  case Nil
  then show ?case by (intro exI[of _ "[]"]) (simp add: advance_Nil)
next
  case (Cons i rows)
  from Cons.prems obtain M1 s1 where
    first: "inner_loop cell i js M s = Inr (M1, s1)"
    and rest: "outer_loop cell js rows M1 s1 = Inr (M', s')"
    by (auto split: sum.splits)
  have "\<exists>ds. inner_loop cellL i js M (s, l) = Inr (M1, (s1, l @ ds)) \<and> s1 = advance g s ds \<and>
       sum_list (map (lo i) js) \<le> length ds \<and> length ds \<le> sum_list (map (hi i) js)"
    by (rule inner_loop_logging[where cell = cell and cellL = cellL and g = g and lo = lo
          and hi = hi, OF _ first]) (rule cell)
  then obtain ds1 where
    fL: "inner_loop cellL i js M (s, l) = Inr (M1, (s1, l @ ds1))" and a1: "s1 = advance g s ds1"
    and n1: "sum_list (map (lo i) js) \<le> length ds1" "length ds1 \<le> sum_list (map (hi i) js)"
    by blast
  from Cons.IH[OF rest, of "l @ ds1"] obtain ds2 where
    rL: "outer_loop cellL js rows M1 (s1, l @ ds1) = Inr (M', (s', (l @ ds1) @ ds2))"
    and a2: "s' = advance g s1 ds2"
    and n2: "sum_list (map (\<lambda>i. sum_list (map (lo i) js)) rows) \<le> length ds2"
      "length ds2 \<le> sum_list (map (\<lambda>i. sum_list (map (hi i) js)) rows)"
    by blast
  have "outer_loop cellL js (i # rows) M (s, l) = Inr (M', (s', l @ (ds1 @ ds2)))"
    by (simp add: fL rL)
  moreover have "s' = advance g s (ds1 @ ds2)" using a1 a2 by (simp add: advance_append)
  moreover have "sum_list (map (\<lambda>i. sum_list (map (lo i) js)) (i # rows)) \<le> length (ds1 @ ds2)"
    "length (ds1 @ ds2) \<le> sum_list (map (\<lambda>i. sum_list (map (hi i) js)) (i # rows))"
    using n1 n2 by simp_all
  ultimately show ?case by blast
qed

lemma off_diagonal_row:
  "sum_list (map (\<lambda>j. if i = j then 0 else c) [0..<k]) = (if i < k then c * (k - 1) else c * k)"
  by (induction k) (auto simp: algebra_simps)

lemma off_diagonal_count:
  "sum_list (map (\<lambda>i. sum_list (map (\<lambda>j. if i = j then 0 else c) [0..<k])) [0..<k])
     = k * (k - 1) * (c::nat)"
proof -
  have eq: "map (\<lambda>i. sum_list (map (\<lambda>j. if i = j then 0 else c) [0..<k])) [0..<k]
      = map (\<lambda>i. c * (k - 1)) [0..<k]"
    by (rule map_cong) (simp_all add: off_diagonal_row)
  show ?thesis unfolding eq by (simp add: sum_list_triv)
qed

lemma generate_loops:
  "\<exists>D s1 F s2.
     outer_loop (distance_cell g (clusters_list n c)) (range_py n) (range_py n) (zeros n) s0
       = Inr (D, s1) \<and>
     outer_loop (flow_cell g (clusters_list n c)) (range_py n) (range_py n) (zeros n) s1
       = Inr (F, s2)"
proof -
  let ?cl = "clusters_list n c"
  have len: "length ?cl = nat n" by (rule length_clusters_list)
  have dc: "\<exists>v s'. distance_cell g ?cl i j s = Inr (v, s') \<and> True"
    if "i < nat n" "j < nat n" for i j s
    using distance_cell_total[of i ?cl j g s] that len by simp
  have fc: "\<exists>v s'. flow_cell g ?cl i j s = Inr (v, s') \<and> True"
    if "i < nat n" "j < nat n" for i j s
    using flow_cell_total[of i ?cl j g s] that len by simp
  have "\<exists>M' s'. outer_loop (distance_cell g ?cl) (range_py n) (range_py n) (zeros n) s0
           = Inr (M', s') \<and> square (nat n) M' \<and> (\<forall>i<nat n. \<forall>j<nat n. True)"
    by (rule fill_matrix[where cell = "distance_cell g ?cl" and P = "\<lambda>_ _ _. True"]) (rule dc)
  then obtain D s1 where
    rD: "outer_loop (distance_cell g ?cl) (range_py n) (range_py n) (zeros n) s0 = Inr (D, s1)"
    by blast
  have "\<exists>M' s'. outer_loop (flow_cell g ?cl) (range_py n) (range_py n) (zeros n) s1
           = Inr (M', s') \<and> square (nat n) M' \<and> (\<forall>i<nat n. \<forall>j<nat n. True)"
    by (rule fill_matrix[where cell = "flow_cell g ?cl" and P = "\<lambda>_ _ _. True"]) (rule fc)
  then obtain F s2 where
    rF: "outer_loop (flow_cell g ?cl) (range_py n) (range_py n) (zeros n) s1 = Inr (F, s2)"
    by blast
  from rD rF show ?thesis by blast
qed

lemma tape1_7:
  "tape1 7 = [13, 20, 9, 14, 26, 11, 18, 57, 10, 84, 102, 106, 11, 37, 15, 19, 67, 28, 40, 52]"
  by (simp add: tape1_def)

lemma run3_seed7:
  "generate (replay tape1) 3 2 7 w =
     Inr (([[0, 4, 40], [10, 0, 54], [46, 51, 0]], [[0, 98, 15], [164, 0, 125], [42, 24, 0]]),
          w\<lparr>random_state := [67, 28, 40, 52]\<rparr>)"
  by (simp add: generate_def cluster_of_numeral range_py_numeral zeros_numeral distance_cell_def
      flow_cell_def setcell_def getitem_def setitem_def replay_def next_raw_def tape1_7)

lemma run3_seed7_logged:
  "generate (logging (replay tape1)) 3 2 7 v =
     Inr (([[0, 4, 40], [10, 0, 54], [46, 51, 0]], [[0, 98, 15], [164, 0, 125], [42, 24, 0]]),
          v\<lparr>random_state :=
            ([67, 28, 40, 52],
             [Randint 0 9, Randint 0 19, Randint 0 9, Randint 0 19, Randint 0 19, Randint 0 19,
              Randint 80 200, Random, Randint 5 80, Randint 80 200, Random, Randint 120 220,
              Random, Randint 5 80, Random, Randint 5 80])\<rparr>)"
  by (simp add: generate_def cluster_of_numeral range_py_numeral zeros_numeral distance_cell_def
      flow_cell_def setcell_def getitem_def setitem_def logging_def replay_def next_raw_def
      tape1_7)

section \<open>The claims\<close>

text \<open>
  C1 (determinism).  For every generator, size, cluster count and seed there is one pair
  of matrices that every call returns, whatever the state of the world (and of the global
  generator) the call starts in.  So two calls with the same three arguments, in
  whatever order or process, return identical distance and flow matrices.
\<close>

theorem generate_deterministic:
  "\<exists>D F. \<forall>w. \<exists>w'. generate g n clusters seed w = Inr ((D, F), w')"
  using generate_run[of g n clusters seed] by blast

theorem generate_deterministic_witness:
  "\<exists>w1 w2.
     generate (replay tape0) 3 2 0 (world0 []) =
       Inr (([[0, 7, 53], [3, 0, 47], [59, 44, 0]], [[0, 91, 8], [157, 0, 219], [150, 17, 0]]), w1) \<and>
     generate (replay tape0) 3 2 0 w1 =
       Inr (([[0, 7, 53], [3, 0, 47], [59, 44, 0]], [[0, 91, 8], [157, 0, 219], [150, 17, 0]]), w2)"
proof -
  from generate_deterministic[of "replay tape0" 3 2 0] obtain D F where
    every: "\<forall>w. \<exists>w'. generate (replay tape0) 3 2 0 w = Inr ((D, F), w')"
    by blast
  from every obtain w1 where first: "generate (replay tape0) 3 2 0 (world0 []) = Inr ((D, F), w1)"
    by blast
  from every obtain w2 where second: "generate (replay tape0) 3 2 0 w1 = Inr ((D, F), w2)"
    by blast
  from first have "D = [[0, 7, 53], [3, 0, 47], [59, 44, 0]]" "F = [[0, 91, 8], [157, 0, 219], [150, 17, 0]]"
    by (simp_all add: run3)
  with first second show ?thesis by blast
qed

text \<open>
  C2 (range bounds).  With a generator that honours the contract of \<open>randint\<close>, for
  \<open>size \<ge> 1\<close> and \<open>clusters \<ge> 1\<close> the call returns, and for every pair \<open>i \<noteq> j\<close>: in the
  same cluster the distance is in \<open>[1, 10]\<close> and the flow in \<open>[80, 200]\<close>; in different
  clusters, with \<open>cd\<close> the absolute difference of the cluster ids, the distance is in
  \<open>[30 + cd * 10, 30 + cd * 10 + 19]\<close> and the flow in \<open>[5, 80]\<close> or \<open>[120, 220]\<close>.
\<close>

theorem generate_range_bounds:
  assumes "randint_ok g" "1 \<le> n" "1 \<le> clusters"
  shows "\<exists>cl D F w'.
     cluster_of n clusters = Inr cl \<and>
     generate g n clusters seed w = Inr ((D, F), w') \<and>
     (\<forall>i<nat n. \<forall>j<nat n. i \<noteq> j \<longrightarrow>
        (cl ! i = cl ! j \<longrightarrow>
           1 \<le> D ! i ! j \<and> D ! i ! j \<le> 10 \<and> 80 \<le> F ! i ! j \<and> F ! i ! j \<le> 200) \<and>
        (cl ! i \<noteq> cl ! j \<longrightarrow>
           30 + \<bar>cl ! i - cl ! j\<bar> * 10 \<le> D ! i ! j \<and>
           D ! i ! j \<le> 30 + \<bar>cl ! i - cl ! j\<bar> * 10 + 19 \<and>
           ((5 \<le> F ! i ! j \<and> F ! i ! j \<le> 80) \<or> (120 \<le> F ! i ! j \<and> F ! i ! j \<le> 220))))"
proof -
  let ?cl = "clusters_list n clusters"
  from generate_run[of g n clusters seed] assms(1) obtain D F s where
    run: "\<forall>w. generate g n clusters seed w = Inr ((D, F), w\<lparr>random_state := s\<rparr>)"
    and cells: "\<forall>i<nat n. \<forall>j<nat n.
        distance_spec ?cl i j (D ! i ! j) \<and> flow_spec ?cl i j (F ! i ! j)"
    by blast
  have "\<forall>i<nat n. \<forall>j<nat n. i \<noteq> j \<longrightarrow>
        (?cl ! i = ?cl ! j \<longrightarrow>
           1 \<le> D ! i ! j \<and> D ! i ! j \<le> 10 \<and> 80 \<le> F ! i ! j \<and> F ! i ! j \<le> 200) \<and>
        (?cl ! i \<noteq> ?cl ! j \<longrightarrow>
           30 + \<bar>?cl ! i - ?cl ! j\<bar> * 10 \<le> D ! i ! j \<and>
           D ! i ! j \<le> 30 + \<bar>?cl ! i - ?cl ! j\<bar> * 10 + 19 \<and>
           ((5 \<le> F ! i ! j \<and> F ! i ! j \<le> 80) \<or> (120 \<le> F ! i ! j \<and> F ! i ! j \<le> 220)))"
  proof (intro allI impI)
    fix i j assume ij: "i < nat n" "j < nat n" "i \<noteq> j"
    from cells ij have "distance_spec ?cl i j (D ! i ! j)" "flow_spec ?cl i j (F ! i ! j)"
      by blast+
    with ij(3) show "(?cl ! i = ?cl ! j \<longrightarrow>
           1 \<le> D ! i ! j \<and> D ! i ! j \<le> 10 \<and> 80 \<le> F ! i ! j \<and> F ! i ! j \<le> 200) \<and>
        (?cl ! i \<noteq> ?cl ! j \<longrightarrow>
           30 + \<bar>?cl ! i - ?cl ! j\<bar> * 10 \<le> D ! i ! j \<and>
           D ! i ! j \<le> 30 + \<bar>?cl ! i - ?cl ! j\<bar> * 10 + 19 \<and>
           ((5 \<le> F ! i ! j \<and> F ! i ! j \<le> 80) \<or> (120 \<le> F ! i ! j \<and> F ! i ! j \<le> 220)))"
      by (auto simp: distance_spec_def flow_spec_def split: if_splits)
  qed
  with run cluster_of_clusters_list[of n clusters] show ?thesis by blast
qed

theorem generate_range_bounds_witness:
  "randint_ok (replay tape0) \<and> (1::int) \<le> 3 \<and> (1::int) \<le> 2 \<and>
   (\<exists>cl D F w'.
      cluster_of 3 2 = Inr cl \<and> cl = [0, 0, 1] \<and>
      generate (replay tape0) 3 2 0 (world0 []) = Inr ((D, F), w') \<and>
      D ! 0 ! 1 = 7 \<and> 1 \<le> D ! 0 ! 1 \<and> D ! 0 ! 1 \<le> 10 \<and>
      F ! 0 ! 1 = 91 \<and> 80 \<le> F ! 0 ! 1 \<and> F ! 0 ! 1 \<le> 200 \<and>
      D ! 0 ! 2 = 53 \<and> 30 + \<bar>cl ! 0 - cl ! 2\<bar> * 10 \<le> D ! 0 ! 2 \<and>
      D ! 0 ! 2 \<le> 30 + \<bar>cl ! 0 - cl ! 2\<bar> * 10 + 19 \<and>
      F ! 0 ! 2 = 8 \<and> 5 \<le> F ! 0 ! 2 \<and> F ! 0 ! 2 \<le> 80)"
proof -
  have ok: "randint_ok (replay tape0)" by (rule randint_ok_replay)
  from generate_range_bounds[OF ok, of 3 2 0 "world0 []"] obtain cl D F w' where
    cl: "cluster_of 3 2 = Inr cl"
    and run: "generate (replay tape0) 3 2 0 (world0 []) = Inr ((D, F), w')"
    and bounds: "\<forall>i<nat 3. \<forall>j<nat 3. i \<noteq> j \<longrightarrow>
        (cl ! i = cl ! j \<longrightarrow>
           1 \<le> D ! i ! j \<and> D ! i ! j \<le> 10 \<and> 80 \<le> F ! i ! j \<and> F ! i ! j \<le> 200) \<and>
        (cl ! i \<noteq> cl ! j \<longrightarrow>
           30 + \<bar>cl ! i - cl ! j\<bar> * 10 \<le> D ! i ! j \<and>
           D ! i ! j \<le> 30 + \<bar>cl ! i - cl ! j\<bar> * 10 + 19 \<and>
           ((5 \<le> F ! i ! j \<and> F ! i ! j \<le> 80) \<or> (120 \<le> F ! i ! j \<and> F ! i ! j \<le> 220)))"
    by auto
  from cl have cl3: "cl = [0, 0, 1]" by (simp add: cluster_of_numeral)
  from run have D: "D = [[0, 7, 53], [3, 0, 47], [59, 44, 0]]"
    and F: "F = [[0, 91, 8], [157, 0, 219], [150, 17, 0]]"
    by (simp_all add: run3)
  have vals: "D ! 0 ! 1 = 7" "F ! 0 ! 1 = 91" "D ! 0 ! 2 = 53" "F ! 0 ! 2 = 8"
    by (simp_all add: D F)
  have idx: "0 < nat 3" "1 < nat 3" "2 < nat 3" "(0::nat) \<noteq> 1" "(0::nat) \<noteq> 2"
    by simp_all
  have same: "cl ! 0 = cl ! 1" and other: "cl ! 0 \<noteq> cl ! 2" by (simp_all add: cl3)
  from bounds idx same
  have "1 \<le> D ! 0 ! 1 \<and> D ! 0 ! 1 \<le> 10 \<and> 80 \<le> F ! 0 ! 1 \<and> F ! 0 ! 1 \<le> 200"
    by blast
  moreover from bounds idx other
  have "30 + \<bar>cl ! 0 - cl ! 2\<bar> * 10 \<le> D ! 0 ! 2 \<and>
      D ! 0 ! 2 \<le> 30 + \<bar>cl ! 0 - cl ! 2\<bar> * 10 + 19"
    by blast
  ultimately show ?thesis using ok cl cl3 run vals by simp
qed

text \<open>
  C3 (draws per cross-cluster flow cell), as amended.  The claim counts two draws in the
  rare branch and one in the common branch.  The code draws the probability value first
  and then, in either branch, one magnitude: every off-diagonal cell whose clusters differ
  costs exactly two calls to the generator, \<open>random\<close> and then \<open>randint\<close> on
  \<open>[120, 220]\<close> (probability value below \<open>0.05\<close>) or on \<open>[5, 80]\<close> (otherwise).
  The count is read off a generator instrumented with a call counter.
\<close>

theorem flow_cell_cross_draws:
  assumes "i \<noteq> j" "getitem cl i = Inr ci" "getitem cl j = Inr cj" "ci \<noteq> cj"
  shows "flow_cell (counting g) cl i j (s, k) =
     (case random g s of
        (p, s1) \<Rightarrow>
          (case randint g (if p < 5 / 100 then 120 else 5) (if p < 5 / 100 then 220 else 80) s1 of
             (r, s2) \<Rightarrow> Inr (r, (s2, k + 2))))"
  using assms by (simp add: flow_cell_def counting_def split: prod.split)

theorem flow_cell_cross_draws_witness:
  "(0::nat) \<noteq> 2 \<and> getitem [0, 0, 1, 1] 0 = Inr (0::int) \<and> getitem [0, 0, 1, 1] 2 = Inr (1::int) \<and>
   (0::int) \<noteq> 1 \<and>
   fst (random (replay tape0) [3, 3]) = 3 / 100 \<and>
   flow_cell (counting (replay tape0)) [0, 0, 1, 1] 0 2 ([3, 3], 0) = Inr (123, ([], 2))"
proof -
  have h: "(0::nat) \<noteq> 2" "getitem [0, 0, 1, 1] 0 = Inr (0::int)"
    "getitem [0, 0, 1, 1] 2 = Inr (1::int)" "(0::int) \<noteq> 1"
    by (simp_all add: getitem_def)
  have p: "random (replay tape0) [3, 3] = (3 / 100, [3])"
    by (simp add: replay_def next_raw_def)
  have r: "randint (replay tape0) 120 220 [3] = (123, [])"
    by (simp add: replay_def next_raw_def)
  from flow_cell_cross_draws[OF h, of "replay tape0" "[3, 3]" 0]
  have "flow_cell (counting (replay tape0)) [0, 0, 1, 1] 0 2 ([3, 3], 0) = Inr (123, ([], 2))"
    by (simp add: p r)
  with h p show ?thesis by simp
qed

text \<open>
  The claim as stated fails in the common branch: with the probability value \<open>1/2\<close>
  the cell \<open>(0, 2)\<close> of a four-location, two-cluster instance takes the counter from
  \<open>0\<close> to \<open>2\<close>, not to \<open>1\<close>.
\<close>

theorem common_branch_one_draw_counterexample:
  "fst (random (replay tape0) [50, 3]) = 1 / 2 \<and> \<not> (1 / 2 :: real) < 5 / 100 \<and>
   flow_cell (counting (replay tape0)) [0, 0, 1, 1] 0 2 ([50, 3], 0) = Inr (8, ([], 2)) \<and>
   (2::nat) \<noteq> 0 + 1"
  by (simp add: flow_cell_def getitem_def counting_def replay_def next_raw_def)

text \<open>
  C4 (shape, non-negative entries, zero diagonal).  With a generator that honours the
  contract of \<open>randint\<close>, the call returns two matrices with \<open>size\<close> rows of \<open>size\<close>
  entries each, every entry non-negative and every diagonal entry zero.  No bound on
  \<open>size\<close> or \<open>clusters\<close> is needed, so the valid inputs \<open>size \<ge> 1\<close>, \<open>clusters \<ge> 1\<close>
  are covered.
\<close>

theorem generate_shape:
  assumes "randint_ok g"
  shows "\<exists>D F w'.
     generate g n clusters seed w = Inr ((D, F), w') \<and>
     length D = nat n \<and> length F = nat n \<and>
     (\<forall>i<nat n.
        length (D ! i) = nat n \<and> length (F ! i) = nat n \<and> D ! i ! i = 0 \<and> F ! i ! i = 0 \<and>
        (\<forall>j<nat n. 0 \<le> D ! i ! j \<and> 0 \<le> F ! i ! j))"
proof -
  let ?cl = "clusters_list n clusters"
  from generate_run[of g n clusters seed] assms obtain D F s where
    run: "\<forall>w. generate g n clusters seed w = Inr ((D, F), w\<lparr>random_state := s\<rparr>)"
    and sq: "square (nat n) D" "square (nat n) F"
    and cells: "\<forall>i<nat n. \<forall>j<nat n.
        distance_spec ?cl i j (D ! i ! j) \<and> flow_spec ?cl i j (F ! i ! j)"
    by blast
  have len: "length D = nat n" "length F = nat n" using sq by (simp_all add: square_def)
  have rows: "length (D ! i) = nat n \<and> length (F ! i) = nat n" if "i < nat n" for i
    using sq that by (simp add: square_def)
  have diag: "D ! i ! i = 0 \<and> F ! i ! i = 0" if "i < nat n" for i
  proof -
    from cells that have "distance_spec ?cl i i (D ! i ! i)" "flow_spec ?cl i i (F ! i ! i)"
      by blast+
    then show ?thesis by (simp add: distance_spec_def flow_spec_def)
  qed
  have nonneg: "0 \<le> D ! i ! j \<and> 0 \<le> F ! i ! j" if "i < nat n" "j < nat n" for i j
  proof -
    from cells that have "distance_spec ?cl i j (D ! i ! j)" "flow_spec ?cl i j (F ! i ! j)"
      by blast+
    then show ?thesis by (simp add: distance_spec_nonneg flow_spec_nonneg)
  qed
  from run len rows diag nonneg show ?thesis by blast
qed

theorem generate_shape_witness:
  "randint_ok (replay tape0) \<and>
   (\<exists>D F w'.
      generate (replay tape0) 3 2 0 (world0 []) = Inr ((D, F), w') \<and>
      D = [[0, 7, 53], [3, 0, 47], [59, 44, 0]] \<and> F = [[0, 91, 8], [157, 0, 219], [150, 17, 0]] \<and>
      length D = nat 3 \<and> length F = nat 3 \<and> length (D ! 1) = nat 3 \<and> length (F ! 1) = nat 3 \<and>
      D ! 1 ! 1 = 0 \<and> F ! 1 ! 1 = 0 \<and> 0 \<le> D ! 1 ! 2 \<and> 0 \<le> F ! 1 ! 2)"
proof -
  have ok: "randint_ok (replay tape0)" by (rule randint_ok_replay)
  from generate_shape[OF ok, of 3 2 0 "world0 []"] obtain D F w' where
    run: "generate (replay tape0) 3 2 0 (world0 []) = Inr ((D, F), w')"
    and len: "length D = nat 3" "length F = nat 3"
    and rows: "\<forall>i<nat 3.
        length (D ! i) = nat 3 \<and> length (F ! i) = nat 3 \<and> D ! i ! i = 0 \<and> F ! i ! i = 0 \<and>
        (\<forall>j<nat 3. 0 \<le> D ! i ! j \<and> 0 \<le> F ! i ! j)"
    by blast
  have idx: "1 < nat 3" "2 < nat 3" by simp_all
  from rows idx have "length (D ! 1) = nat 3 \<and> length (F ! 1) = nat 3 \<and> D ! 1 ! 1 = 0 \<and>
      F ! 1 ! 1 = 0 \<and> 0 \<le> D ! 1 ! 2 \<and> 0 \<le> F ! 1 ! 2"
    by blast
  moreover from run have "D = [[0, 7, 53], [3, 0, 47], [59, 44, 0]]"
      "F = [[0, 91, 8], [157, 0, 219], [150, 17, 0]]"
    by (simp_all add: run3)
  ultimately show ?thesis using ok run len by blast
qed

text \<open>
  C5 (cluster assignment).  For \<open>size \<ge> 1\<close> and \<open>clusters \<ge> 1\<close> the comprehension
  raises nothing and yields, for every index \<open>i\<close>, the floor of \<open>i * clusters / size\<close>;
  every cluster id lies in \<open>[0, clusters - 1]\<close> and the ids never decrease along the
  indices.
\<close>

theorem cluster_assignment:
  assumes "1 \<le> n" "1 \<le> clusters"
  shows "\<exists>cl.
     cluster_of n clusters = Inr cl \<and> length cl = nat n \<and>
     (\<forall>i<nat n.
        cl ! i = \<lfloor>real_of_int (int i * clusters) / real_of_int n\<rfloor> \<and>
        0 \<le> cl ! i \<and> cl ! i \<le> clusters - 1) \<and>
     (\<forall>i j. i \<le> j \<longrightarrow> j < nat n \<longrightarrow> cl ! i \<le> cl ! j)"
proof -
  let ?cl = "clusters_list n clusters"
  have pointwise: "?cl ! i = \<lfloor>real_of_int (int i * clusters) / real_of_int n\<rfloor> \<and>
        0 \<le> ?cl ! i \<and> ?cl ! i \<le> clusters - 1" if "i < nat n" for i
  proof -
    have "\<lfloor>real_of_int (int i * clusters) / real_of_int n\<rfloor> = int i * clusters div n"
      by (rule floor_divide_of_int_eq)
    with cluster_id_bounds[OF assms that] clusters_list_nth[OF that, of clusters]
    show ?thesis by presburger
  qed
  have mono: "?cl ! i \<le> ?cl ! j" if "i \<le> j" "j < nat n" for i j
  proof -
    have "0 \<le> clusters" using assms by simp
    from cluster_mono[OF assms(1) this that(1)] that show ?thesis
      by (simp add: clusters_list_nth)
  qed
  from pointwise mono cluster_of_clusters_list[of n clusters] length_clusters_list[of n clusters]
  show ?thesis by blast
qed

theorem cluster_assignment_witness:
  "(1::int) \<le> 3 \<and> (1::int) \<le> 2 \<and>
   (\<exists>cl. cluster_of 3 2 = Inr cl \<and> cl = [0, 0, 1] \<and> length cl = nat 3 \<and>
      cl ! 2 = \<lfloor>real_of_int (int 2 * 2) / real_of_int 3\<rfloor> \<and> 0 \<le> cl ! 2 \<and> cl ! 2 \<le> 2 - 1 \<and>
      cl ! 1 \<le> cl ! 2)"
proof -
  have h: "(1::int) \<le> 3" "(1::int) \<le> 2" by simp_all
  from cluster_assignment[OF h] obtain cl where
    cl: "cluster_of 3 2 = Inr cl" and len: "length cl = nat 3"
    and pointwise: "\<forall>i<nat 3.
        cl ! i = \<lfloor>real_of_int (int i * 2) / real_of_int 3\<rfloor> \<and> 0 \<le> cl ! i \<and> cl ! i \<le> 2 - 1"
    and mono: "\<forall>i j. i \<le> j \<longrightarrow> j < nat 3 \<longrightarrow> cl ! i \<le> cl ! j"
    by blast
  have idx: "(2::nat) < nat 3" "(1::nat) \<le> 2" by simp_all
  from pointwise idx have "cl ! 2 = \<lfloor>real_of_int (int 2 * 2) / real_of_int 3\<rfloor> \<and>
      0 \<le> cl ! 2 \<and> cl ! 2 \<le> 2 - 1"
    by blast
  moreover from mono idx have "cl ! 1 \<le> cl ! 2" by blast
  moreover from cl have "cl = [0, 0, 1]" by (simp add: cluster_of_numeral)
  ultimately show ?thesis using h cl len by blast
qed



text \<open>
  C7 (the scenario \<open>generate(4, 2, 0)\<close>), as amended.  The cluster assignment is
  \<open>[0, 0, 1, 1]\<close>; one pair of matrices is returned by every call; \<open>D[0][0] = 0\<close>;
  \<open>F[0][1]\<close> is in \<open>[80, 200]\<close> and \<open>F[0][2]\<close> in \<open>[5, 80]\<close> or \<open>[120, 220]\<close>.  The
  locations \<open>0\<close> and \<open>2\<close> are one cluster apart, so the code computes \<open>D[0][2]\<close> as
  \<open>30 + 1 * 10\<close> plus a draw from \<open>[0, 19]\<close>: it lies in \<open>[40, 59]\<close>, not in the
  claim's \<open>[30, 49]\<close>.
\<close>

theorem scenario_4_2_0:
  assumes "randint_ok g"
  shows "cluster_of 4 2 = Inr [0, 0, 1, 1] \<and>
     (\<exists>D F.
        (\<forall>w. \<exists>w'. generate g 4 2 0 w = Inr ((D, F), w')) \<and>
        D ! 0 ! 0 = 0 \<and>
        40 \<le> D ! 0 ! 2 \<and> D ! 0 ! 2 \<le> 59 \<and>
        80 \<le> F ! 0 ! 1 \<and> F ! 0 ! 1 \<le> 200 \<and>
        ((5 \<le> F ! 0 ! 2 \<and> F ! 0 ! 2 \<le> 80) \<or> (120 \<le> F ! 0 ! 2 \<and> F ! 0 ! 2 \<le> 220)))"
proof -
  from generate_run[of g 4 2 0] assms obtain D F s where
    run: "\<forall>w. generate g 4 2 0 w = Inr ((D, F), w\<lparr>random_state := s\<rparr>)"
    and cells: "\<forall>i<nat 4. \<forall>j<nat 4.
        distance_spec (clusters_list 4 2) i j (D ! i ! j) \<and>
        flow_spec (clusters_list 4 2) i j (F ! i ! j)"
    by blast
  have idx: "0 < nat 4" "1 < nat 4" "2 < nat 4" by simp_all
  from cells idx have "distance_spec [0, 0, 1, 1] 0 0 (D ! 0 ! 0)"
      "distance_spec [0, 0, 1, 1] 0 2 (D ! 0 ! 2)"
      "flow_spec [0, 0, 1, 1] 0 1 (F ! 0 ! 1)" "flow_spec [0, 0, 1, 1] 0 2 (F ! 0 ! 2)"
    unfolding clusters_list_4_2 by blast+
  then have "D ! 0 ! 0 = 0 \<and> 40 \<le> D ! 0 ! 2 \<and> D ! 0 ! 2 \<le> 59 \<and>
        80 \<le> F ! 0 ! 1 \<and> F ! 0 ! 1 \<le> 200 \<and>
        ((5 \<le> F ! 0 ! 2 \<and> F ! 0 ! 2 \<le> 80) \<or> (120 \<le> F ! 0 ! 2 \<and> F ! 0 ! 2 \<le> 220))"
    by (simp add: distance_spec_def flow_spec_def)
  with run cluster_of_numeral(2) show ?thesis by blast
qed

theorem scenario_4_2_0_witness:
  "randint_ok (replay tape0) \<and> cluster_of 4 2 = Inr [0, 0, 1, 1] \<and>
   (\<exists>D F w1 w2.
      generate (replay tape0) 4 2 0 (world0 []) = Inr ((D, F), w1) \<and>
      generate (replay tape0) 4 2 0 w1 = Inr ((D, F), w2) \<and>
      D = [[0, 7, 53, 42], [8, 0, 59, 44], [51, 50, 0, 4], [57, 41, 10, 0]] \<and>
      F = [[0, 84, 13, 65], [101, 0, 50, 129], [69, 45, 0, 151], [5, 120, 80, 0]] \<and>
      D ! 0 ! 0 = 0 \<and> 40 \<le> D ! 0 ! 2 \<and> D ! 0 ! 2 \<le> 59 \<and>
      80 \<le> F ! 0 ! 1 \<and> F ! 0 ! 1 \<le> 200 \<and> 5 \<le> F ! 0 ! 2 \<and> F ! 0 ! 2 \<le> 80)"
proof -
  have ok: "randint_ok (replay tape0)" by (rule randint_ok_replay)
  from scenario_4_2_0[OF ok] obtain D F where
    cl: "cluster_of 4 2 = Inr [0, 0, 1, 1]"
    and every: "\<forall>w. \<exists>w'. generate (replay tape0) 4 2 0 w = Inr ((D, F), w')"
    and facts: "D ! 0 ! 0 = 0" "40 \<le> D ! 0 ! 2" "D ! 0 ! 2 \<le> 59" "80 \<le> F ! 0 ! 1" "F ! 0 ! 1 \<le> 200"
    by blast
  from every obtain w1 where first: "generate (replay tape0) 4 2 0 (world0 []) = Inr ((D, F), w1)"
    by blast
  from every obtain w2 where second: "generate (replay tape0) 4 2 0 w1 = Inr ((D, F), w2)"
    by blast
  from first have DF: "D = [[0, 7, 53, 42], [8, 0, 59, 44], [51, 50, 0, 4], [57, 41, 10, 0]]"
      "F = [[0, 84, 13, 65], [101, 0, 50, 129], [69, 45, 0, 151], [5, 120, 80, 0]]"
    by (simp_all add: run4)
  have "5 \<le> F ! 0 ! 2 \<and> F ! 0 ! 2 \<le> 80" by (simp add: DF)
  with ok cl first second DF facts show ?thesis by blast
qed

text \<open>
  The claim's range for \<open>D[0][2]\<close> fails: a generator that honours the contract of
  \<open>randint\<close> and whose first two draws are \<open>6\<close> from \<open>[0, 9]\<close> and \<open>13\<close> from \<open>[0, 19]\<close>
  gives \<open>D[0][2] = 53\<close>, above \<open>49\<close>.
\<close>

theorem scenario_distance_counterexample:
  "randint_ok (replay tape0) \<and>
   generate (replay tape0) 4 2 0 (world0 []) =
     Inr (([[0, 7, 53, 42], [8, 0, 59, 44], [51, 50, 0, 4], [57, 41, 10, 0]],
           [[0, 84, 13, 65], [101, 0, 50, 129], [69, 45, 0, 151], [5, 120, 80, 0]]),
          (world0 [])\<lparr>random_state := []\<rparr>) \<and>
   [[0, 7, 53, 42], [8, 0, 59, 44], [51, 50, 0, 4], [57, 41, 10, 0]] ! 0 ! 2 = (53::int) \<and>
   \<not> (53::int) \<le> 49"
  by (simp add: randint_ok_replay run4)

text \<open>
  C8 (exceptions and effects), as amended.  For every input the call raises nothing and
  leaves the files, the openable paths and the printed output as they were.  It has one
  effect besides its return value: it reseeds the global generator of the \<open>random\<close>
  module with the seed and advances it by the draws it makes.  The state it leaves is the
  state \<^verbatim>\<open>random.seed(seed)\<close> installs, advanced by the requests \<open>calls\<close> in order, where
  \<open>calls\<close> is exactly the sequence of requests the same call makes to the recording
  generator (which returns the same matrices); so the state left depends on the size, the
  cluster count and the seed only, not on the state before the call.  The call makes
  between \<open>2 * size * (size - 1)\<close> and \<open>3 * size * (size - 1)\<close> requests.
\<close>

theorem generate_effects:
  "\<exists>D F calls.
     (\<forall>w. \<exists>w'.
        generate g n clusters seed w = Inr ((D, F), w') \<and>
        fs w' = fs w \<and> can_open w' = can_open w \<and> stdout w' = stdout w \<and>
        random_state w' = advance g (seed_state g seed) calls) \<and>
     (\<forall>v. \<exists>v'.
        generate (logging g) n clusters seed v = Inr ((D, F), v') \<and>
        random_state v' = (advance g (seed_state g seed) calls, calls)) \<and>
     nat n * (nat n - 1) * 2 \<le> length calls \<and> length calls \<le> nat n * (nat n - 1) * 3"
proof -
  let ?cl = "clusters_list n clusters"
  let ?k = "nat n"
  let ?s0 = "seed_state g seed"
  have rs: "range_py n = [0..<?k]" by (simp add: range_py_def)
  from generate_loops[of g n clusters ?s0] obtain D s1 F s2 where
    rD: "outer_loop (distance_cell g ?cl) (range_py n) (range_py n) (zeros n) ?s0 = Inr (D, s1)"
    and rF: "outer_loop (flow_cell g ?cl) (range_py n) (range_py n) (zeros n) s1 = Inr (F, s2)"
    by blast
  have "\<exists>ds. outer_loop (distance_cell (logging g) ?cl) (range_py n) (range_py n) (zeros n) (?s0, [])
        = Inr (D, (s1, [] @ ds)) \<and> s1 = advance g ?s0 ds \<and>
       sum_list (map (\<lambda>i. sum_list (map (\<lambda>j. if i = j then 0 else 1) (range_py n))) (range_py n))
         \<le> length ds \<and>
       length ds
         \<le> sum_list (map (\<lambda>i. sum_list (map (\<lambda>j. if i = j then 0 else 1) (range_py n))) (range_py n))"
    by (rule outer_loop_logging[where cell = "distance_cell g ?cl"
          and cellL = "distance_cell (logging g) ?cl" and g = g
          and lo = "\<lambda>i j. if i = j then 0 else 1" and hi = "\<lambda>i j. if i = j then 0 else 1",
          OF _ rD])
       (use distance_cell_logging in fastforce)
  then obtain ds1 where
    lD: "outer_loop (distance_cell (logging g) ?cl) (range_py n) (range_py n) (zeros n) (?s0, [])
        = Inr (D, (s1, ds1))"
    and a1: "s1 = advance g ?s0 ds1"
    and n1: "length ds1 = ?k * (?k - 1)"
    unfolding rs off_diagonal_count by auto
  have "\<exists>ds. outer_loop (flow_cell (logging g) ?cl) (range_py n) (range_py n) (zeros n) (s1, ds1)
        = Inr (F, (s2, ds1 @ ds)) \<and> s2 = advance g s1 ds \<and>
       sum_list (map (\<lambda>i. sum_list (map (\<lambda>j. if i = j then 0 else 1) (range_py n))) (range_py n))
         \<le> length ds \<and>
       length ds
         \<le> sum_list (map (\<lambda>i. sum_list (map (\<lambda>j. if i = j then 0 else 2) (range_py n))) (range_py n))"
    by (rule outer_loop_logging[where cell = "flow_cell g ?cl"
          and cellL = "flow_cell (logging g) ?cl" and g = g
          and lo = "\<lambda>i j. if i = j then 0 else 1" and hi = "\<lambda>i j. if i = j then 0 else 2",
          OF _ rF])
       (rule flow_cell_logging)
  then obtain ds2 where
    lF: "outer_loop (flow_cell (logging g) ?cl) (range_py n) (range_py n) (zeros n) (s1, ds1)
        = Inr (F, (s2, ds1 @ ds2))"
    and a2: "s2 = advance g s1 ds2"
    and n2: "?k * (?k - 1) \<le> length ds2" "length ds2 \<le> ?k * (?k - 1) * 2"
    unfolding rs off_diagonal_count by auto
  let ?calls = "ds1 @ ds2"
  have fin: "s2 = advance g ?s0 ?calls" using a1 a2 by (simp add: advance_append)
  have run: "generate g n clusters seed w = Inr ((D, F), w\<lparr>random_state := s2\<rparr>)" for w
    by (simp add: generate_def cluster_of_clusters_list rD rF)
  have seedL: "seed_state (logging g) seed = (?s0, [])" by (simp add: logging_def)
  have runL: "generate (logging g) n clusters seed v = Inr ((D, F), v\<lparr>random_state := (s2, ?calls)\<rparr>)"
    for v
    by (simp add: generate_def cluster_of_clusters_list seedL lD lF)
  have p1: "\<forall>w. \<exists>w'.
        generate g n clusters seed w = Inr ((D, F), w') \<and>
        fs w' = fs w \<and> can_open w' = can_open w \<and> stdout w' = stdout w \<and>
        random_state w' = advance g ?s0 ?calls"
    using run fin by simp
  have p2: "\<forall>v. \<exists>v'.
        generate (logging g) n clusters seed v = Inr ((D, F), v') \<and>
        random_state v' = (advance g ?s0 ?calls, ?calls)"
    using runL fin by simp
  have p3: "?k * (?k - 1) * 2 \<le> length ?calls" "length ?calls \<le> ?k * (?k - 1) * 3"
    using n1 n2 by simp_all
  from p1 p2 p3 show ?thesis by blast
qed

theorem generate_effects_witness:
  "seed_state (replay tape1) 7 =
     [13, 20, 9, 14, 26, 11, 18, 57, 10, 84, 102, 106, 11, 37, 15, 19, 67, 28, 40, 52] \<and>
   (\<exists>calls w' v'.
      generate (replay tape1) 3 2 7 (world0 [5]) =
        Inr (([[0, 4, 40], [10, 0, 54], [46, 51, 0]], [[0, 98, 15], [164, 0, 125], [42, 24, 0]]),
             w') \<and>
      stdout w' = [] \<and>
      random_state w' = [67, 28, 40, 52] \<and>
      random_state w' = advance (replay tape1) (seed_state (replay tape1) 7) calls \<and>
      generate (logging (replay tape1)) 3 2 7 (world0 ([5], [])) =
        Inr (([[0, 4, 40], [10, 0, 54], [46, 51, 0]], [[0, 98, 15], [164, 0, 125], [42, 24, 0]]),
             v') \<and>
      random_state v' = ([67, 28, 40, 52], calls) \<and>
      calls =
        [Randint 0 9, Randint 0 19, Randint 0 9, Randint 0 19, Randint 0 19, Randint 0 19,
         Randint 80 200, Random, Randint 5 80, Randint 80 200, Random, Randint 120 220,
         Random, Randint 5 80, Random, Randint 5 80] \<and>
      nat 3 * (nat 3 - 1) * 2 \<le> length calls \<and> length calls \<le> nat 3 * (nat 3 - 1) * 3)"
proof -
  have seeded: "seed_state (replay tape1) 7 =
     [13, 20, 9, 14, 26, 11, 18, 57, 10, 84, 102, 106, 11, 37, 15, 19, 67, 28, 40, 52]"
    by (simp add: replay_def tape1_7)
  from generate_effects[of "replay tape1" 3 2 7] obtain D F calls where
    plain: "\<forall>w. \<exists>w'.
        generate (replay tape1) 3 2 7 w = Inr ((D, F), w') \<and>
        fs w' = fs w \<and> can_open w' = can_open w \<and> stdout w' = stdout w \<and>
        random_state w' = advance (replay tape1) (seed_state (replay tape1) 7) calls"
    and logged: "\<forall>v. \<exists>v'.
        generate (logging (replay tape1)) 3 2 7 v = Inr ((D, F), v') \<and>
        random_state v' = (advance (replay tape1) (seed_state (replay tape1) 7) calls, calls)"
    and count: "nat 3 * (nat 3 - 1) * 2 \<le> length calls" "length calls \<le> nat 3 * (nat 3 - 1) * 3"
    by blast
  from plain obtain w' where
    a: "generate (replay tape1) 3 2 7 (world0 [5]) = Inr ((D, F), w')"
    and a_out: "stdout w' = stdout (world0 [5::nat])"
    and a_state: "random_state w' = advance (replay tape1) (seed_state (replay tape1) 7) calls"
    by blast
  from logged obtain v' where
    b: "generate (logging (replay tape1)) 3 2 7 (world0 ([5], [])) = Inr ((D, F), v')"
    and b_state: "random_state v' =
        (advance (replay tape1) (seed_state (replay tape1) 7) calls, calls)"
    by blast
  from a have DF: "D = [[0, 4, 40], [10, 0, 54], [46, 51, 0]]"
      "F = [[0, 98, 15], [164, 0, 125], [42, 24, 0]]"
    and w': "w' = (world0 [5])\<lparr>random_state := [67, 28, 40, 52]\<rparr>"
    by (simp_all add: run3_seed7)
  from b have v': "v' = (world0 ([5], []))\<lparr>random_state :=
            ([67, 28, 40, 52],
             [Randint 0 9, Randint 0 19, Randint 0 9, Randint 0 19, Randint 0 19, Randint 0 19,
              Randint 80 200, Random, Randint 5 80, Randint 80 200, Random, Randint 120 220,
              Random, Randint 5 80, Random, Randint 5 80])\<rparr>"
    by (simp add: run3_seed7_logged)
  from b_state v' have calls: "calls =
        [Randint 0 9, Randint 0 19, Randint 0 9, Randint 0 19, Randint 0 19, Randint 0 19,
         Randint 80 200, Random, Randint 5 80, Randint 80 200, Random, Randint 120 220,
         Random, Randint 5 80, Random, Randint 5 80]"
    and fin: "advance (replay tape1) (seed_state (replay tape1) 7) calls = [67, 28, 40, 52]"
    by simp_all
  have out: "stdout w' = []" using a_out by (simp add: world0_def)
  have st: "random_state w' = [67, 28, 40, 52]" using w' by simp
  have vst: "random_state v' = ([67, 28, 40, 52], calls)" using b_state fin by simp
  from seeded a[unfolded DF] out st a_state b[unfolded DF] vst calls count
  show ?thesis by blast
qed

text \<open>
  The claim that all state other than the return value is unchanged fails on the valid
  input \<open>(1, 1, 0)\<close>: the state of the global generator before the call is not its state
  after the call.
\<close>

theorem generate_reseeds_counterexample:
  "generate (replay tape0) 1 1 0 (world0 [5]) =
     Inr (([[0]], [[0]]), (world0 [5])\<lparr>random_state := tape0 0\<rparr>) \<and>
   random_state ((world0 [5])\<lparr>random_state := tape0 0\<rparr>) \<noteq> random_state (world0 [5])"
  by (simp add: run1 world0_def tape0_def)

text \<open>
  C9 (separation).  With a generator that honours the contract of \<open>randint\<close>, every
  distance between locations of different clusters is at least \<open>40\<close>, every off-diagonal
  distance within a cluster is at most \<open>10\<close>, and so every cross-cluster distance is
  strictly larger than every within-cluster distance of the same matrix.  Proved for all
  sizes and cluster counts, the valid ones included.
\<close>

theorem cluster_separation:
  assumes "randint_ok g"
  shows "\<exists>cl D F w'.
     cluster_of n clusters = Inr cl \<and>
     generate g n clusters seed w = Inr ((D, F), w') \<and>
     (\<forall>i<nat n. \<forall>j<nat n. i \<noteq> j \<longrightarrow>
        (cl ! i \<noteq> cl ! j \<longrightarrow> 40 \<le> D ! i ! j) \<and> (cl ! i = cl ! j \<longrightarrow> D ! i ! j \<le> 10)) \<and>
     (\<forall>i<nat n. \<forall>j<nat n. \<forall>a<nat n. \<forall>b<nat n.
        i \<noteq> j \<longrightarrow> cl ! i \<noteq> cl ! j \<longrightarrow> a \<noteq> b \<longrightarrow> cl ! a = cl ! b \<longrightarrow> D ! a ! b < D ! i ! j)"
proof -
  let ?cl = "clusters_list n clusters"
  from generate_run[of g n clusters seed] assms obtain D F s where
    run: "\<forall>w. generate g n clusters seed w = Inr ((D, F), w\<lparr>random_state := s\<rparr>)"
    and cells: "\<forall>i<nat n. \<forall>j<nat n.
        distance_spec ?cl i j (D ! i ! j) \<and> flow_spec ?cl i j (F ! i ! j)"
    by blast
  have d: "distance_spec ?cl i j (D ! i ! j)" if "i < nat n" "j < nat n" for i j
    using cells that by blast
  have cross: "40 \<le> D ! i ! j" if "i < nat n" "j < nat n" "i \<noteq> j" "?cl ! i \<noteq> ?cl ! j" for i j
    using distance_spec_cross[OF d[OF that(1,2)] that(3,4)] .
  have within: "D ! i ! j \<le> 10" if "i < nat n" "j < nat n" "i \<noteq> j" "?cl ! i = ?cl ! j" for i j
    using distance_spec_within(2)[OF d[OF that(1,2)] that(3,4)] .
  have sep: "D ! a ! b < D ! i ! j"
    if "i < nat n" "j < nat n" "a < nat n" "b < nat n"
      "i \<noteq> j" "?cl ! i \<noteq> ?cl ! j" "a \<noteq> b" "?cl ! a = ?cl ! b" for i j a b
    using cross[OF that(1,2,5,6)] within[OF that(3,4,7,8)] by linarith
  from run cluster_of_clusters_list[of n clusters] cross within sep show ?thesis by blast
qed

theorem cluster_separation_witness:
  "randint_ok (replay tape0) \<and>
   (\<exists>cl D F w'.
      cluster_of 3 2 = Inr cl \<and> cl = [0, 0, 1] \<and>
      generate (replay tape0) 3 2 0 (world0 []) = Inr ((D, F), w') \<and>
      D = [[0, 7, 53], [3, 0, 47], [59, 44, 0]] \<and>
      40 \<le> D ! 0 ! 2 \<and> D ! 0 ! 1 \<le> 10 \<and> D ! 0 ! 1 < D ! 0 ! 2)"
proof -
  have ok: "randint_ok (replay tape0)" by (rule randint_ok_replay)
  from cluster_separation[OF ok, of 3 2 0 "world0 []"] obtain cl D F w' where
    cl: "cluster_of 3 2 = Inr cl"
    and run: "generate (replay tape0) 3 2 0 (world0 []) = Inr ((D, F), w')"
    and bounds: "\<forall>i<nat 3. \<forall>j<nat 3. i \<noteq> j \<longrightarrow>
        (cl ! i \<noteq> cl ! j \<longrightarrow> 40 \<le> D ! i ! j) \<and> (cl ! i = cl ! j \<longrightarrow> D ! i ! j \<le> 10)"
    and sep: "\<forall>i<nat 3. \<forall>j<nat 3. \<forall>a<nat 3. \<forall>b<nat 3.
        i \<noteq> j \<longrightarrow> cl ! i \<noteq> cl ! j \<longrightarrow> a \<noteq> b \<longrightarrow> cl ! a = cl ! b \<longrightarrow> D ! a ! b < D ! i ! j"
    by blast
  from cl have cl3: "cl = [0, 0, 1]" by (simp add: cluster_of_numeral)
  from run have D: "D = [[0, 7, 53], [3, 0, 47], [59, 44, 0]]" by (simp add: run3)
  have idx: "0 < nat 3" "1 < nat 3" "2 < nat 3" "(0::nat) \<noteq> 1" "(0::nat) \<noteq> 2"
    by simp_all
  have same: "cl ! 0 = cl ! 1" and other: "cl ! 0 \<noteq> cl ! 2" by (simp_all add: cl3)
  from bounds idx other have "40 \<le> D ! 0 ! 2" by blast
  moreover from bounds idx same have "D ! 0 ! 1 \<le> 10" by blast
  moreover from sep idx same other have "D ! 0 ! 1 < D ! 0 ! 2" by blast
  ultimately show ?thesis using ok cl cl3 run D by blast
qed

text \<open>
  C10 (edge cases).  For size \<open>0\<close> the comprehension never divides: the cluster
  assignment is empty and the call returns two empty matrices, having only reseeded the
  generator.  For \<open>0\<close> clusters every location is assigned cluster \<open>0\<close> and the call
  returns; with a generator that honours the contract of \<open>randint\<close> every off-diagonal
  distance is in \<open>[1, 10]\<close> and every off-diagonal flow in \<open>[80, 200]\<close>.
\<close>

theorem generate_edge_cases:
  "cluster_of 0 clusters = Inr [] \<and>
   (\<forall>w. generate g 0 clusters seed w = Inr (([], []), w\<lparr>random_state := seed_state g seed\<rparr>)) \<and>
   (randint_ok g \<longrightarrow>
      (\<exists>D F w'.
         cluster_of n 0 = Inr (replicate (nat n) 0) \<and>
         generate g n 0 seed w = Inr ((D, F), w') \<and>
         (\<forall>i<nat n. \<forall>j<nat n. i \<noteq> j \<longrightarrow>
            1 \<le> D ! i ! j \<and> D ! i ! j \<le> 10 \<and> 80 \<le> F ! i ! j \<and> F ! i ! j \<le> 200)))"
proof (intro conjI impI)
  show "cluster_of 0 clusters = Inr []"
    by (simp add: cluster_of_def range_py_def)
  show "\<forall>w. generate g 0 clusters seed w = Inr (([], []), w\<lparr>random_state := seed_state g seed\<rparr>)"
    by (simp add: generate_def cluster_of_def range_py_def zeros_def)
next
  assume ok: "randint_ok g"
  let ?cl = "clusters_list n 0"
  from generate_run[of g n 0 seed] ok obtain D F s where
    run: "\<forall>w. generate g n 0 seed w = Inr ((D, F), w\<lparr>random_state := s\<rparr>)"
    and cells: "\<forall>i<nat n. \<forall>j<nat n.
        distance_spec ?cl i j (D ! i ! j) \<and> flow_spec ?cl i j (F ! i ! j)"
    by blast
  have same: "?cl ! i = ?cl ! j" if "i < nat n" "j < nat n" for i j
    using that by (simp add: clusters_list_zero)
  have b: "1 \<le> D ! i ! j \<and> D ! i ! j \<le> 10 \<and> 80 \<le> F ! i ! j \<and> F ! i ! j \<le> 200"
    if "i < nat n" "j < nat n" "i \<noteq> j" for i j
  proof -
    from cells that have "distance_spec ?cl i j (D ! i ! j)" "flow_spec ?cl i j (F ! i ! j)"
      by blast+
    with same[OF that(1,2)] that(3) show ?thesis
      using distance_spec_within flow_spec_within by blast
  qed
  have "cluster_of n 0 = Inr (replicate (nat n) 0)"
    using cluster_of_clusters_list[of n 0] by (simp add: clusters_list_zero)
  with run b show "\<exists>D F w'.
         cluster_of n 0 = Inr (replicate (nat n) 0) \<and>
         generate g n 0 seed w = Inr ((D, F), w') \<and>
         (\<forall>i<nat n. \<forall>j<nat n. i \<noteq> j \<longrightarrow>
            1 \<le> D ! i ! j \<and> D ! i ! j \<le> 10 \<and> 80 \<le> F ! i ! j \<and> F ! i ! j \<le> 200)"
    by blast
qed

theorem generate_edge_cases_witness:
  "randint_ok (replay tape0) \<and>
   cluster_of 0 5 = Inr [] \<and>
   generate (replay tape0) 0 5 0 (world0 [1, 2]) =
     Inr (([], []), (world0 [1, 2])\<lparr>random_state := tape0 0\<rparr>) \<and>
   (\<exists>D F w'.
      cluster_of 2 0 = Inr [0, 0] \<and>
      generate (replay tape0) 2 0 0 (world0 []) = Inr ((D, F), w') \<and>
      D = [[0, 7], [4, 0]] \<and> F = [[0, 82], [87, 0]] \<and>
      1 \<le> D ! 0 ! 1 \<and> D ! 0 ! 1 \<le> 10 \<and> 80 \<le> F ! 0 ! 1 \<and> F ! 0 ! 1 \<le> 200)"
proof -
  have ok: "randint_ok (replay tape0)" by (rule randint_ok_replay)
  note edge = generate_edge_cases[of 5 "replay tape0" 0 2 "world0 []"]
  from edge have c0: "cluster_of 0 5 = Inr []" by blast
  from edge have "\<forall>w. generate (replay tape0) 0 5 0 w =
      Inr (([], []), w\<lparr>random_state := seed_state (replay tape0) 0\<rparr>)"
    by blast
  then have g0: "generate (replay tape0) 0 5 0 (world0 [1, 2]) =
      Inr (([], []), (world0 [1, 2])\<lparr>random_state := tape0 0\<rparr>)"
    by (simp add: replay_def)
  from edge ok obtain D F w' where
    cl: "cluster_of 2 0 = Inr (replicate (nat 2) 0)"
    and run: "generate (replay tape0) 2 0 0 (world0 []) = Inr ((D, F), w')"
    and b: "\<forall>i<nat 2. \<forall>j<nat 2. i \<noteq> j \<longrightarrow>
        1 \<le> D ! i ! j \<and> D ! i ! j \<le> 10 \<and> 80 \<le> F ! i ! j \<and> F ! i ! j \<le> 200"
    by blast
  from cl have cl2: "cluster_of 2 0 = Inr [0, 0]" by (simp add: eval_nat_numeral)
  from run have DF: "D = [[0, 7], [4, 0]]" "F = [[0, 82], [87, 0]]" by (simp_all add: run2_0)
  have idx: "0 < nat 2" "1 < nat 2" "(0::nat) \<noteq> 1" by simp_all
  from b idx have "1 \<le> D ! 0 ! 1 \<and> D ! 0 ! 1 \<le> 10 \<and> 80 \<le> F ! 0 ! 1 \<and> F ! 0 ! 1 \<le> 200"
    by blast
  with ok c0 g0 cl2 run DF show ?thesis by blast
qed

end
